theory Spec2Isabelle
  imports Main "HOL-Library.Signed_Division"
begin

section \<open>The program \<open>outputs/2122_D.cpp\<close>: bounded-lag lexicographic search\<close>

text \<open>
  The source solves one test case in \<open>solve()\<close>: it reads an undirected graph on the
  nodes \<open>1..n\<close>, and runs a priority-queue search over states (node, time, wait) from
  node 1 to node \<open>n\<close>.  The definitions below follow the source line by line.

  \<^item> \<open>long long\<close> values (times, waits, table entries) are \<open>int\<close>.  The lemma
    \<open>reach_bounds\<close> shows that on a well-formed input every time the search stores lies
    in \<open>[0, n * C)\<close> with \<open>n * C < 2^31\<close>, that every wait lies between 0 and the time
    of its state, and that a table entry is non-negative or the sentinel \<open>INF_LL\<close>
    (the source's \<open>INF = 1e18\<close>): 64-bit arithmetic never overflows.
  \<^item> the places where the source narrows to a 32-bit \<open>int\<close> (\<open>deg[i]\<close>, \<open>dt\<close>,
    \<open>edge_idx_to_take\<close>, \<open>dt_new\<close>) go through \<open>to_int32\<close>, which wraps.
  \<^item> \<open>%\<close> is C++'s truncating remainder, \<open>smod\<close>.
  \<^item> a \<open>vector\<close> access outside the vector is undefined behaviour in C++; the model
    returns \<open>None\<close> there (\<open>rd\<close>, \<open>wr\<close>, \<open>rd_at\<close>, \<open>wr_at\<close>), so that every indexing
    of the source is a branch of the model.
  \<^item> \<open>std::priority_queue\<close> only promises that \<open>top()\<close> is an element that no other
    element precedes; which one of several equal keys it returns depends on the heap
    layout.  The model keeps the queue as the list of its elements, the step relation
    \<open>step\<close> pops \<^emph>\<open>any\<close> such element, and the function \<open>search\<close> is the run that always
    pops the first one in the list.
\<close>

subsection \<open>Constants and the queue's element type\<close>

definition INF_LL :: int where
  "INF_LL = 1000000000000000000"

definition C :: int where
  "C = 600"

record State =
  total_time :: int
  wait_time :: int
  st_u :: nat

text \<open>\<open>State::operator>\<close>: compare times, then waits; the node is not compared.\<close>

definition state_gt :: "State \<Rightarrow> State \<Rightarrow> bool" where
  "state_gt a b =
     (if total_time a \<noteq> total_time b then total_time a > total_time b
      else wait_time a > wait_time b)"

definition to_int32 :: "int \<Rightarrow> int" where
  "to_int32 x = (x + 2147483648) mod 4294967296 - 2147483648"

subsection \<open>Vector accesses\<close>

definition rd :: "'a list \<Rightarrow> nat \<Rightarrow> 'a option" where
  "rd xs i = (if i < length xs then Some (xs ! i) else None)"

definition wr :: "'a list \<Rightarrow> nat \<Rightarrow> 'a \<Rightarrow> 'a list option" where
  "wr xs i x = (if i < length xs then Some (xs[i := x]) else None)"

text \<open>A row of \<open>min_w\<close> is indexed by an \<open>int\<close> offset, which may be negative.\<close>

definition rd_at :: "int list list \<Rightarrow> nat \<Rightarrow> int \<Rightarrow> int option" where
  "rd_at m v d =
     (if v < length m \<and> 0 \<le> d \<and> nat d < length (m ! v) then Some (m ! v ! nat d) else None)"

definition wr_at :: "int list list \<Rightarrow> nat \<Rightarrow> int \<Rightarrow> int \<Rightarrow> int list list option" where
  "wr_at m v d x =
     (if v < length m \<and> 0 \<le> d \<and> nat d < length (m ! v)
      then Some (m[v := (m ! v)[nat d := x]]) else None)"

subsection \<open>Reading the graph (lines 31-47)\<close>

record graph =
  adj :: "(nat \<times> int) list list"
  deg :: "int list"

definition push_back_at :: "'a list list \<Rightarrow> nat \<Rightarrow> 'a \<Rightarrow> 'a list list option" where
  "push_back_at a i x = (if i < length a then Some (a[i := a ! i @ [x]]) else None)"

fun read_edges :: "(nat \<times> nat) list \<Rightarrow> (nat \<times> int) list list \<Rightarrow> (nat \<times> int) list list option" where
  "read_edges [] a = Some a"
| "read_edges ((x, y) # es) a =
     (case push_back_at a x (y, 0) of
        None \<Rightarrow> None
      | Some a1 \<Rightarrow>
          (case push_back_at a1 y (x, 0) of
             None \<Rightarrow> None
           | Some a2 \<Rightarrow> read_edges es a2))"

definition adj_input_order :: "nat \<Rightarrow> (nat \<times> nat) list \<Rightarrow> (nat \<times> int) list list option" where
  "adj_input_order n edges = read_edges edges (replicate (n + 1) [])"

text \<open>The inner loop of lines 43-46: the \<open>k\<close>-th incident edge gets \<open>edge_idx = k\<close>, from 1.\<close>

fun number_from :: "int \<Rightarrow> (nat \<times> int) list \<Rightarrow> (nat \<times> int) list" where
  "number_from k [] = []"
| "number_from k (p # ps) = (fst p, k) # number_from (k + 1) ps"

text \<open>Lines 39-47: index 0 of \<open>adj\<close> and \<open>deg\<close> keeps its initial value, the loop runs from 1.\<close>

definition build_graph :: "(nat \<times> int) list list \<Rightarrow> graph" where
  "build_graph a =
     \<lparr> adj = (case a of [] \<Rightarrow> [] | r # rs \<Rightarrow> [] # map (number_from 1) rs),
       deg = (case a of [] \<Rightarrow> [] | r # rs \<Rightarrow> 0 # map (\<lambda>r. to_int32 (int (length r))) rs) \<rparr>"

definition read_graph :: "nat \<Rightarrow> (nat \<times> nat) list \<Rightarrow> graph option" where
  "read_graph n edges = map_option build_graph (adj_input_order n edges)"

subsection \<open>The search state (lines 49-58)\<close>

record config =
  min_t :: "int list"
  min_w :: "int list list"
  pq :: "State list"
  ans :: "int \<times> int"

definition push :: "State \<Rightarrow> config \<Rightarrow> config" where
  "push s c = c\<lparr>pq := pq c @ [s]\<rparr>"

definition init :: "nat \<Rightarrow> config option" where
  "init n =
     (let mt0 = replicate (n + 1) INF_LL; mw0 = replicate (n + 1) (replicate (nat C) INF_LL) in
      case wr mt0 1 0 of
        None \<Rightarrow> None
      | Some mt \<Rightarrow>
          (case wr_at mw0 1 0 0 of
             None \<Rightarrow> None
           | Some mw \<Rightarrow>
               Some \<lparr> min_t = mt, min_w = mw,
                      pq = [\<lparr>total_time = 0, wait_time = 0, st_u = 1\<rparr>],
                      ans = (INF_LL, INF_LL) \<rparr>))"

subsection \<open>One iteration of the loop (lines 61-121)\<close>

text \<open>Lines 72-76: a popped target state replaces the answer when it is smaller.\<close>

definition record_answer :: "nat \<Rightarrow> State \<Rightarrow> config \<Rightarrow> config" where
  "record_answer n s c =
     (if st_u s = n then
        (if total_time s < fst (ans c) \<or> (total_time s = fst (ans c) \<and> wait_time s < snd (ans c))
         then c\<lparr>ans := (total_time s, wait_time s)\<rparr> else c)
      else c)"

text \<open>Lines 80-90, option 1: wait.  \<open>dt\<close> is the offset computed at line 67.\<close>

definition relax_wait :: "State \<Rightarrow> int \<Rightarrow> config \<Rightarrow> config option" where
  "relax_wait s dt c =
     (let t_new_wait = total_time s + 1; w_new_wait = wait_time s + 1 in
      case rd (min_t c) (st_u s) of
        None \<Rightarrow> None
      | Some mt \<Rightarrow>
          if t_new_wait < mt + C then
            (let dt_new = dt + 1 in
             case rd_at (min_w c) (st_u s) dt_new of
               None \<Rightarrow> None
             | Some mw \<Rightarrow>
                 if w_new_wait < mw then
                   (case wr_at (min_w c) (st_u s) dt_new w_new_wait of
                      None \<Rightarrow> None
                    | Some m' \<Rightarrow>
                        Some (push \<lparr>total_time = t_new_wait, wait_time = w_new_wait, st_u = st_u s\<rparr>
                                (c\<lparr>min_w := m'\<rparr>)))
                 else Some c)
          else Some c)"

text \<open>Lines 94-101: the first edge of the list whose number is the one to take;
  \<open>None\<close> is the source's \<open>v = -1\<close>.\<close>

fun find_edge :: "(nat \<times> int) list \<Rightarrow> int \<Rightarrow> nat option" where
  "find_edge [] k = None"
| "find_edge (e # es) k = (if snd e = k then Some (fst e) else find_edge es k)"

definition select_edge :: "graph \<Rightarrow> nat \<Rightarrow> int \<Rightarrow> nat option option" where
  "select_edge G x t =
     (case rd (deg G) x of
        None \<Rightarrow> None
      | Some d \<Rightarrow>
          if d > 0 then
            (let edge_idx_to_take = to_int32 ((t smod d) + 1) in
             case rd (adj G) x of
               None \<Rightarrow> None
             | Some es \<Rightarrow> Some (find_edge es edge_idx_to_take))
          else Some None)"

text \<open>Lines 103-119: the move successor at node \<open>v\<close>.\<close>

definition accept_move :: "State \<Rightarrow> nat \<Rightarrow> config \<Rightarrow> config option" where
  "accept_move s v c =
     (let t_new_move = total_time s + 1; w_new_move = wait_time s in
      case rd (min_t c) v of
        None \<Rightarrow> None
      | Some mtv \<Rightarrow>
          if t_new_move < mtv then
            (case wr (min_t c) v t_new_move of
               None \<Rightarrow> None
             | Some mt' \<Rightarrow>
                 (case wr_at (min_w c) v 0 w_new_move of
                    None \<Rightarrow> None
                  | Some m' \<Rightarrow>
                      Some (push \<lparr>total_time = t_new_move, wait_time = w_new_move, st_u = v\<rparr>
                              (c\<lparr>min_t := mt', min_w := m'\<rparr>))))
          else
            (let dt_new = to_int32 (t_new_move - mtv) in
             if dt_new < C then
               (case rd_at (min_w c) v dt_new of
                  None \<Rightarrow> None
                | Some mw \<Rightarrow>
                    if w_new_move < mw then
                      (case wr_at (min_w c) v dt_new w_new_move of
                         None \<Rightarrow> None
                       | Some m' \<Rightarrow>
                           Some (push \<lparr>total_time = t_new_move, wait_time = w_new_move, st_u = v\<rparr>
                                   (c\<lparr>min_w := m'\<rparr>)))
                    else Some c)
             else Some c))"

definition relax_move :: "graph \<Rightarrow> State \<Rightarrow> config \<Rightarrow> config option" where
  "relax_move G s c =
     (case select_edge G (st_u s) (total_time s) of
        None \<Rightarrow> None
      | Some None \<Rightarrow> Some c
      | Some (Some v) \<Rightarrow> accept_move s v c)"

text \<open>The loop body for the popped state \<open>s\<close>; \<open>c\<close> is the configuration after \<open>pq.pop()\<close>.\<close>

definition body :: "graph \<Rightarrow> nat \<Rightarrow> State \<Rightarrow> config \<Rightarrow> config option" where
  "body G n s c =
     (case rd (min_t c) (st_u s) of
        None \<Rightarrow> None
      | Some mt \<Rightarrow>
          if mt = INF_LL \<or> total_time s > mt + C then Some c
          else
            (let dt = to_int32 (total_time s - mt) in
             if dt \<ge> C then Some c
             else
               (case rd_at (min_w c) (st_u s) dt of
                  None \<Rightarrow> None
                | Some mw \<Rightarrow>
                    if wait_time s > mw then Some c
                    else
                      (let c1 = record_answer n s c in
                       if total_time s > fst (ans c1) then Some c1
                       else
                         (case relax_wait s dt c1 of
                            None \<Rightarrow> None
                          | Some c2 \<Rightarrow> relax_move G s c2)))))"

subsection \<open>The priority queue and the loop (lines 60-62, 122-124)\<close>

text \<open>\<open>is_top s q\<close>: \<open>s\<close> may be what \<open>pq.top()\<close> returns on the elements \<open>q\<close>.\<close>

definition is_top :: "State \<Rightarrow> State list \<Rightarrow> bool" where
  "is_top s q = (s \<in> set q \<and> list_all (\<lambda>s'. \<not> state_gt s s') q)"

definition pop :: "State \<Rightarrow> config \<Rightarrow> config" where
  "pop s c = c\<lparr>pq := remove1 s (pq c)\<rparr>"

definition step :: "graph \<Rightarrow> nat \<Rightarrow> config \<Rightarrow> config \<Rightarrow> bool" where
  "step G n c c' = (\<exists>s. is_top s (pq c) \<and> body G n s (pop s c) = Some c')"

text \<open>The first element of the list that no element precedes.\<close>

fun pq_top :: "State list \<Rightarrow> State" where
  "pq_top [] = \<lparr>total_time = 0, wait_time = 0, st_u = 0\<rparr>"
| "pq_top [s] = s"
| "pq_top (s # q) = (let m = pq_top q in if state_gt s m then m else s)"

partial_function (option) search :: "graph \<Rightarrow> nat \<Rightarrow> config \<Rightarrow> config option" where
  "search G n c =
     (if pq c = [] then Some c
      else Option.bind (body G n (pq_top (pq c)) (pop (pq_top (pq c)) c)) (search G n))"

text \<open>\<open>solve\<close>: \<open>None\<close> stands for undefined behaviour or a search that never ends,
  \<open>Some (a, b)\<close> for the two numbers printed at line 124.\<close>

definition solve :: "nat \<Rightarrow> (nat \<times> nat) list \<Rightarrow> (int \<times> int) option" where
  "solve n edges =
     (case read_graph n edges of
        None \<Rightarrow> None
      | Some G \<Rightarrow>
          (case init n of
             None \<Rightarrow> None
           | Some c0 \<Rightarrow> map_option ans (search G n c0)))"

subsection \<open>The specification's walks\<close>

text \<open>
  These definitions follow the specification's words, not the code.  The incident-edge
  list of a node holds, in input order, the other endpoint of every edge at the node
  (an edge \<open>(x, x)\<close> is listed twice, once for each end).  At time \<open>t\<close> an agent at
  \<open>x\<close> either waits (time and wait grow by one) or moves along the edge at position
  \<open>t mod d(x)\<close> of the list (time grows by one).
\<close>

definition incident :: "(nat \<times> nat) list \<Rightarrow> nat \<Rightarrow> nat list" where
  "incident edges x =
     concat (map (\<lambda>(a, b). (if a = x then [b] else []) @ (if b = x then [a] else [])) edges)"

datatype action = Wait | Move

text \<open>The edge an agent at \<open>x\<close> takes when it moves at time \<open>t\<close>; none at degree 0.\<close>

definition edge_at :: "(nat \<times> nat) list \<Rightarrow> nat \<Rightarrow> int \<Rightarrow> nat option" where
  "edge_at E x t =
     (if incident E x = [] then None
      else Some (incident E x ! nat (t mod int (length (incident E x)))))"

fun walk_step :: "(nat \<times> nat) list \<Rightarrow> action \<Rightarrow> nat \<times> int \<times> int \<Rightarrow> (nat \<times> int \<times> int) option" where
  "walk_step E Wait (x, t, w) = Some (x, t + 1, w + 1)"
| "walk_step E Move (x, t, w) =
     (case edge_at E x t of None \<Rightarrow> None | Some v \<Rightarrow> Some (v, t + 1, w))"

fun walk :: "(nat \<times> nat) list \<Rightarrow> action list \<Rightarrow> nat \<times> int \<times> int \<Rightarrow> (nat \<times> int \<times> int) option" where
  "walk E [] p = Some p"
| "walk E (a # as) p = (case walk_step E a p of None \<Rightarrow> None | Some p' \<Rightarrow> walk E as p')"

text \<open>\<open>arrives E x T W\<close>: some walk from node 1 at time 0 is at \<open>x\<close> at time \<open>T\<close> having
  waited \<open>W\<close> times.\<close>

definition arrives :: "(nat \<times> nat) list \<Rightarrow> nat \<Rightarrow> int \<Rightarrow> int \<Rightarrow> bool" where
  "arrives E x T W = (\<exists>as. walk E as (1, 0, 0) = Some (x, T, W))"

definition lex_le :: "int \<times> int \<Rightarrow> int \<times> int \<Rightarrow> bool" where
  "lex_le p q = (fst p < fst q \<or> (fst p = fst q \<and> snd p \<le> snd q))"

definition lexmin :: "(nat \<times> nat) list \<Rightarrow> nat \<Rightarrow> int \<times> int \<Rightarrow> bool" where
  "lexmin E n p =
     (arrives E n (fst p) (snd p) \<and> (\<forall>T W. arrives E n T W \<longrightarrow> lex_le p (T, W)))"

subsection \<open>Inputs and executions\<close>

text \<open>
  A well-formed input has at least one node, every endpoint in \<open>1..n\<close>, and sizes that
  the program's 32-bit \<open>int\<close> variables hold: twice the number of edges (a degree) and
  \<open>n * C\<close> (a time offset) are below \<open>2^31\<close>.
\<close>

definition well_formed :: "nat \<Rightarrow> (nat \<times> nat) list \<Rightarrow> bool" where
  "well_formed n edges =
     (1 \<le> n \<and> int n * C < 2147483648 \<and> 2 * int (length edges) < 2147483648 \<and>
      list_all (\<lambda>(x, y). 1 \<le> x \<and> x \<le> n \<and> 1 \<le> y \<and> y \<le> n) edges)"

text \<open>\<open>runs n edges c\<close>: some execution on the input is at the head of the loop in
  configuration \<open>c\<close>; \<open>final\<close>: the loop has ended there.\<close>

definition runs :: "nat \<Rightarrow> (nat \<times> nat) list \<Rightarrow> config \<Rightarrow> bool" where
  "runs n edges c =
     (\<exists>G c0. read_graph n edges = Some G \<and> init n = Some c0 \<and> (step G n)\<^sup>*\<^sup>* c0 c)"

definition final :: "nat \<Rightarrow> (nat \<times> nat) list \<Rightarrow> config \<Rightarrow> bool" where
  "final n edges c = (runs n edges c \<and> pq c = [])"

section \<open>Basic facts\<close>

subsection \<open>Integers and the incident-edge lists\<close>

lemma to_int32_id: "- 2147483648 \<le> x \<Longrightarrow> x < 2147483648 \<Longrightarrow> to_int32 x = x"
  by (simp add: to_int32_def)

lemma smod_nonneg: "0 \<le> (t::int) \<Longrightarrow> 0 < d \<Longrightarrow> t smod d = t mod d"
  by (simp add: signed_modulo_int_def sgn_if)

lemma incident_Nil [simp]: "incident [] x = []"
  by (simp add: incident_def)

lemma incident_Cons:
  "incident ((a, b) # es) x = (if a = x then [b] else []) @ (if b = x then [a] else []) @ incident es x"
  by (simp add: incident_def)

lemma length_incident: "length (incident es x) \<le> 2 * length es"
  by (induction es) (auto simp: incident_Cons)

lemma set_incident_eq: "set (incident es x) = {b. (x, b) \<in> set es} \<union> {a. (a, x) \<in> set es}"
proof (induction es)
  case Nil
  then show ?case by simp
next
  case (Cons e es)
  obtain p q where e: "e = (p, q)" by (cases e)
  show ?case unfolding e incident_Cons using Cons.IH
    by (cases "p = x"; cases "q = x"; auto)
qed

lemma set_incident:
  "list_all (\<lambda>(x, y). 1 \<le> x \<and> x \<le> n \<and> 1 \<le> y \<and> y \<le> n) es \<Longrightarrow> v \<in> set (incident es x) \<Longrightarrow> 1 \<le> v \<and> v \<le> n"
  unfolding set_incident_eq list_all_iff by auto

lemma read_edges_rows:
  "list_all (\<lambda>(x, y). x < length a \<and> y < length a) es \<Longrightarrow>
   \<exists>a'. read_edges es a = Some a' \<and> length a' = length a \<and>
        (\<forall>x < length a. a' ! x = a ! x @ map (\<lambda>v. (v, 0)) (incident es x))"
proof (induction es arbitrary: a)
  case Nil
  then show ?case by simp
next
  case (Cons e es)
  obtain p q where e: "e = (p, q)" by (cases e)
  from Cons.prems e have pq: "p < length a" "q < length a"
    and rest: "list_all (\<lambda>(x, y). x < length a \<and> y < length a) es" by auto
  define a1 where "a1 = a[p := a ! p @ [(q, 0)]]"
  define a2 where "a2 = a1[q := a1 ! q @ [(p, 0)]]"
  have len: "length a2 = length a" by (simp add: a2_def a1_def)
  from Cons.IH[of a2] rest len obtain a' where
    a': "read_edges es a2 = Some a'" "length a' = length a"
      "\<forall>x < length a. a' ! x = a2 ! x @ map (\<lambda>v. (v, 0)) (incident es x)"
    by auto
  have "read_edges (e # es) a = Some a'"
    using pq a' by (simp add: e push_back_at_def a1_def a2_def)
  moreover have "a' ! x = a ! x @ map (\<lambda>v. (v, 0)) (incident (e # es) x)" if "x < length a" for x
    using a'(3) that pq unfolding e incident_Cons a2_def a1_def
    by (cases "p = x"; cases "q = x"; simp add: nth_list_update)
  ultimately show ?case using a'(2) by blast
qed

lemma length_number_from [simp]: "length (number_from k ps) = length ps"
  by (induction ps arbitrary: k) auto

lemma find_edge_number_from:
  "find_edge (number_from k ps) j =
     (if k \<le> j \<and> j < k + int (length ps) then Some (fst (ps ! nat (j - k))) else None)"
proof (induction ps arbitrary: k)
  case Nil
  then show ?case by simp
next
  case (Cons p ps)
  show ?case
  proof (cases "j = k")
    case True
    then show ?thesis by simp
  next
    case False
    have "nat (j - k) = Suc (nat (j - (k + 1)))" if "k < j"
      using that by simp
    then show ?thesis using False Cons.IH[of "k + 1"] by auto
  qed
qed

subsection \<open>What reading the input builds\<close>

definition graph_ok :: "(nat \<times> nat) list \<Rightarrow> nat \<Rightarrow> graph \<Rightarrow> bool" where
  "graph_ok E n G =
     (length (adj G) = n + 1 \<and> length (deg G) = n + 1 \<and>
      (\<forall>x. 1 \<le> x \<and> x \<le> n \<longrightarrow>
         adj G ! x = number_from 1 (map (\<lambda>v. (v, 0)) (incident E x)) \<and>
         deg G ! x = int (length (incident E x))))"

lemma build_graph_rows:
  assumes "a \<noteq> []"
  shows "length (adj (build_graph a)) = length a" "length (deg (build_graph a)) = length a"
    "1 \<le> x \<Longrightarrow> x < length a \<Longrightarrow> adj (build_graph a) ! x = number_from 1 (a ! x)"
    "1 \<le> x \<Longrightarrow> x < length a \<Longrightarrow> deg (build_graph a) ! x = to_int32 (int (length (a ! x)))"
  using assms by (cases a; cases x; simp add: build_graph_def)+

lemma well_formed_bounds:
  assumes "well_formed n E"
  shows "1 \<le> n" "int n * C < 2147483648" "int (length (incident E x)) < 2147483648"
    "v \<in> set (incident E x) \<Longrightarrow> 1 \<le> v \<and> v \<le> n"
proof -
  show "1 \<le> n" "int n * C < 2147483648" using assms by (simp_all add: well_formed_def)
  have "int (length (incident E x)) \<le> 2 * int (length E)"
    using length_incident[of E x] by linarith
  then show "int (length (incident E x)) < 2147483648"
    using assms by (simp add: well_formed_def)
  show "v \<in> set (incident E x) \<Longrightarrow> 1 \<le> v \<and> v \<le> n"
    using assms set_incident[of n E v x] by (simp add: well_formed_def)
qed

lemma read_graph_ok:
  assumes wf: "well_formed n E"
  shows "\<exists>G. read_graph n E = Some G \<and> graph_ok E n G"
proof -
  define a0 where "a0 = replicate (n + 1) ([]::(nat \<times> int) list)"
  have len0: "length a0 = n + 1" by (simp add: a0_def)
  have row0: "a0 ! x = []" if "x < n + 1" for x
    unfolding a0_def using that by (rule nth_replicate)
  have "list_all (\<lambda>(x, y). x < length a0 \<and> y < length a0) E"
    using wf unfolding well_formed_def list_all_iff len0 by auto
  from read_edges_rows[OF this] obtain a where
    a: "read_edges E a0 = Some a" "length a = n + 1"
       "\<forall>x < n + 1. a ! x = map (\<lambda>v. (v, 0)) (incident E x)"
    using row0 len0 by auto
  have ne: "a \<noteq> []" using a(2) by auto
  have "graph_ok E n (build_graph a)"
    unfolding graph_ok_def
    using build_graph_rows[OF ne] a(2,3) well_formed_bounds(3)[OF wf]
    by (simp add: to_int32_id)
  then show ?thesis using a(1) by (simp add: read_graph_def adj_input_order_def a0_def del: replicate.simps replicate_Suc)
qed

lemma select_edge_ok:
  assumes wf: "well_formed n E" and G: "graph_ok E n G" and x: "1 \<le> x" "x \<le> n" and t: "0 \<le> t"
  shows "select_edge G x t =
           Some (if incident E x = [] then None
                 else Some (incident E x ! nat (t mod int (length (incident E x)))))"
proof -
  let ?inc = "incident E x"
  let ?d = "int (length ?inc)"
  have rd: "rd (deg G) x = Some ?d" "rd (adj G) x = Some (number_from 1 (map (\<lambda>v. (v, 0)) ?inc))"
    using G x by (simp_all add: graph_ok_def rd_def)
  show ?thesis
  proof (cases "?inc = []")
    case True
    then show ?thesis using rd by (simp add: select_edge_def)
  next
    case False
    then have d: "0 < ?d" by simp
    have m: "0 \<le> t mod ?d" "t mod ?d < ?d" using d by simp_all
    have big: "?d < 2147483648" by (rule well_formed_bounds(3)[OF wf])
    have idx: "to_int32 (t smod ?d + 1) = t mod ?d + 1"
      using m big by (simp add: smod_nonneg[OF t d] to_int32_id)
    have "nat (t mod ?d) < length ?inc" using m by linarith
    then show ?thesis
      using False rd d m idx
      by (simp add: select_edge_def find_edge_number_from)
  qed
qed

subsection \<open>Elementary updates\<close>

definition slot :: "config \<Rightarrow> nat \<Rightarrow> nat \<Rightarrow> int" where
  "slot c v d = min_w c ! v ! d"

definition store :: "nat \<Rightarrow> nat \<Rightarrow> int \<Rightarrow> config \<Rightarrow> config" where
  "store v d x c = c\<lparr>min_w := (min_w c)[v := (min_w c ! v)[d := x]]\<rparr>"

definition arrive :: "nat \<Rightarrow> int \<Rightarrow> config \<Rightarrow> config" where
  "arrive v t c = c\<lparr>min_t := (min_t c)[v := t]\<rparr>"

definition shape :: "nat \<Rightarrow> config \<Rightarrow> bool" where
  "shape n c =
     (length (min_t c) = n + 1 \<and> length (min_w c) = n + 1 \<and>
      (\<forall>v \<le> n. length (min_w c ! v) = nat C))"

definition wait_succ :: "State \<Rightarrow> State" where
  "wait_succ s = \<lparr>total_time = total_time s + 1, wait_time = wait_time s + 1, st_u = st_u s\<rparr>"

definition move_succ :: "State \<Rightarrow> nat \<Rightarrow> State" where
  "move_succ s v = \<lparr>total_time = total_time s + 1, wait_time = wait_time s, st_u = v\<rparr>"

text \<open>The offset of a state at its node.\<close>

definition off :: "config \<Rightarrow> State \<Rightarrow> nat" where
  "off c s = nat (total_time s - min_t c ! st_u s)"

definition wait_result :: "State \<Rightarrow> config \<Rightarrow> config" where
  "wait_result s c =
     (if total_time s + 1 < min_t c ! st_u s + C \<and>
         wait_time s + 1 < slot c (st_u s) (off c (wait_succ s))
      then push (wait_succ s) (store (st_u s) (off c (wait_succ s)) (wait_time s + 1) c)
      else c)"

definition move_result :: "State \<Rightarrow> nat \<Rightarrow> config \<Rightarrow> config" where
  "move_result s v c =
     (if total_time s + 1 < min_t c ! v
      then push (move_succ s v) (store v 0 (wait_time s) (arrive v (total_time s + 1) c))
      else if total_time s + 1 - min_t c ! v < C \<and>
              wait_time s < slot c v (off c (move_succ s v))
      then push (move_succ s v) (store v (off c (move_succ s v)) (wait_time s) c)
      else c)"

lemma C_pos [simp]: "0 < C"
  by (simp add: C_def)

lemma relax_wait_eff:
  assumes "shape n c" "st_u s \<le> n" "min_t c ! st_u s \<le> total_time s"
    and dt: "dt = total_time s - min_t c ! st_u s"
  shows "relax_wait s dt c = Some (wait_result s c)"
proof -
  let ?u = "st_u s"
  have rd: "rd (min_t c) ?u = Some (min_t c ! ?u)"
    using assms by (simp add: rd_def shape_def)
  have o: "off c (wait_succ s) = nat (dt + 1)" by (simp add: off_def wait_succ_def dt algebra_simps)
  show ?thesis
  proof (cases "total_time s + 1 < min_t c ! ?u + C")
    case False
    then show ?thesis using rd by (simp add: relax_wait_def wait_result_def Let_def)
  next
    case True
    then have "0 \<le> dt + 1" "nat (dt + 1) < length (min_w c ! ?u)" "?u < length (min_w c)"
      using assms by (simp_all add: shape_def)
    then have "rd_at (min_w c) ?u (dt + 1) = Some (slot c ?u (nat (dt + 1)))"
      "\<And>x. wr_at (min_w c) ?u (dt + 1) x = Some ((min_w c)[?u := (min_w c ! ?u)[nat (dt + 1) := x]])"
      by (simp_all add: rd_at_def wr_at_def slot_def)
    then show ?thesis using rd True
      by (simp add: relax_wait_def wait_result_def o[unfolded wait_succ_def] store_def push_def wait_succ_def Let_def)
  qed
qed

lemma accept_move_eff:
  assumes "shape n c" "v \<le> n" "0 \<le> total_time s" "total_time s + 1 < 2147483648"
    and "0 \<le> min_t c ! v"
  shows "accept_move s v c = Some (move_result s v c)"
proof -
  let ?t = "total_time s + 1"
  have rd: "rd (min_t c) v = Some (min_t c ! v)" "\<And>x. wr (min_t c) v x = Some ((min_t c)[v := x])"
    using assms by (simp_all add: rd_def wr_def shape_def)
  have row: "v < length (min_w c)" "length (min_w c ! v) = nat C" using assms by (simp_all add: shape_def)
  show ?thesis
  proof (cases "?t < min_t c ! v")
    case True
    have "wr_at (min_w c) v 0 (wait_time s) = Some ((min_w c)[v := (min_w c ! v)[0 := wait_time s]])"
      using row by (simp add: wr_at_def)
    then show ?thesis using True rd
      by (simp add: accept_move_def move_result_def store_def push_def arrive_def move_succ_def Let_def)
  next
    case False
    then have d: "to_int32 (?t - min_t c ! v) = ?t - min_t c ! v" "0 \<le> ?t - min_t c ! v"
      using assms by (simp_all add: to_int32_id)
    have o: "off c (move_succ s v) = nat (?t - min_t c ! v)" by (simp add: off_def move_succ_def)
    show ?thesis
    proof (cases "?t - min_t c ! v < C")
      case outside: False
      then show ?thesis using False rd d by (simp add: accept_move_def move_result_def Let_def)
    next
      case True
      then have "nat (?t - min_t c ! v) < length (min_w c ! v)" using row d by simp
      then have "rd_at (min_w c) v (?t - min_t c ! v) = Some (slot c v (nat (?t - min_t c ! v)))"
        "\<And>x. wr_at (min_w c) v (?t - min_t c ! v) x
            = Some ((min_w c)[v := (min_w c ! v)[nat (?t - min_t c ! v) := x]])"
        using row d by (simp_all add: rd_at_def wr_at_def slot_def)
      then show ?thesis using False True rd d
        by (simp add: accept_move_def move_result_def Let_def o[unfolded move_succ_def] store_def push_def move_succ_def)
    qed
  qed
qed

subsection \<open>Invariants of the search\<close>

definition visited :: "nat \<Rightarrow> config \<Rightarrow> nat set" where
  "visited n c = {v. v \<le> n \<and> min_t c ! v \<noteq> INF_LL}"

definition tables_ok :: "nat \<Rightarrow> config \<Rightarrow> bool" where
  "tables_ok n c =
     (shape n c \<and> min_t c ! 0 = INF_LL \<and>
      (\<forall>v \<le> n. min_t c ! v \<noteq> INF_LL \<longrightarrow>
          0 \<le> min_t c ! v \<and> min_t c ! v \<le> (int (card (visited n c)) - 1) * C) \<and>
      (\<forall>v \<le> n. \<forall>d < nat C. slot c v d \<noteq> INF_LL \<longrightarrow> min_t c ! v \<noteq> INF_LL \<and> 0 \<le> slot c v d))"

definition state_ok :: "nat \<Rightarrow> config \<Rightarrow> State \<Rightarrow> bool" where
  "state_ok n c s =
     (1 \<le> st_u s \<and> st_u s \<le> n \<and> 0 \<le> wait_time s \<and> wait_time s \<le> total_time s \<and>
      min_t c ! st_u s \<noteq> INF_LL \<and> min_t c ! st_u s \<le> total_time s \<and>
      total_time s < min_t c ! st_u s + C \<and> slot c (st_u s) (off c s) \<le> wait_time s)"

definition early :: "nat \<Rightarrow> config \<Rightarrow> int \<Rightarrow> bool" where
  "early n c t = (\<forall>v \<le> n. min_t c ! v \<noteq> INF_LL \<longrightarrow> min_t c ! v \<le> t + 1)"

definition sinv :: "nat \<Rightarrow> config \<Rightarrow> bool" where
  "sinv n c = (tables_ok n c \<and> (\<forall>s \<in> set (pq c). state_ok n c s \<and> early n c (total_time s)))"

definition mid :: "nat \<Rightarrow> State \<Rightarrow> config \<Rightarrow> bool" where
  "mid n s c =
     (tables_ok n c \<and> state_ok n c s \<and> early n c (total_time s) \<and>
      (\<forall>s' \<in> set (pq c). state_ok n c s' \<and> total_time s \<le> total_time s'))"

lemma store_simps [simp]:
  "min_t (store v d x c) = min_t c" "pq (store v d x c) = pq c" "ans (store v d x c) = ans c"
  "length (min_w (store v d x c)) = length (min_w c)"
  by (simp_all add: store_def)

lemma arrive_simps [simp]:
  "min_w (arrive v t c) = min_w c" "pq (arrive v t c) = pq c" "ans (arrive v t c) = ans c"
  "length (min_t (arrive v t c)) = length (min_t c)"
  "slot (arrive v t c) = slot c"
  by (simp_all add: arrive_def slot_def fun_eq_iff)

lemma push_simps [simp]:
  "min_t (push s c) = min_t c" "min_w (push s c) = min_w c" "ans (push s c) = ans c"
  "pq (push s c) = pq c @ [s]" "slot (push s c) = slot c"
  "visited n (push s c) = visited n c" "shape n (push s c) = shape n c"
  "off (push s c) = off c"
  by (simp_all add: push_def slot_def fun_eq_iff visited_def shape_def off_def)

lemma slot_store:
  "shape n c \<Longrightarrow> v \<le> n \<Longrightarrow> d < nat C \<Longrightarrow>
   slot (store v d x c) v' d' = (if v' = v \<and> d' = d then x else slot c v' d')"
  by (auto simp: store_def slot_def shape_def nth_list_update)

lemma length_row_update:
  "length (m[v := (m ! v)[d := x]] ! va) = length (m ! va)"
proof (cases "v < length m")
  case True
  then show ?thesis by (cases "va = v") simp_all
next
  case False
  then have "m[v := (m ! v)[d := x]] = m" by (simp add: list_update_beyond)
  then show ?thesis by simp
qed

lemma shape_store [simp]: "shape n (store v d x c) = shape n c"
  by (simp add: shape_def store_def length_row_update)

lemma C_nonneg [simp]: "0 \<le> C"
  by (simp add: C_def)

lemma shape_arrive [simp]: "shape n (arrive v t c) = shape n c"
  by (simp add: shape_def)

lemma visited_store [simp]: "visited n (store v d x c) = visited n c"
  by (simp add: visited_def)

lemma off_store [simp]: "off (store v d x c) = off c"
  by (simp add: off_def fun_eq_iff)

lemma min_t_arrive:
  "shape n c \<Longrightarrow> v \<le> n \<Longrightarrow> min_t (arrive v t c) ! v' = (if v' = v then t else min_t c ! v')"
  by (simp add: arrive_def shape_def nth_list_update)

lemma visited_arrive:
  "shape n c \<Longrightarrow> v \<le> n \<Longrightarrow> t \<noteq> INF_LL \<Longrightarrow> visited n (arrive v t c) = insert v (visited n c)"
  by (auto simp: visited_def min_t_arrive)

lemma finite_visited [simp]: "finite (visited n c)"
  by (simp add: visited_def)

lemma card_visited: "tables_ok n c \<Longrightarrow> int (card (visited n c)) \<le> int n"
proof -
  assume "tables_ok n c"
  then have "1 \<le> v \<and> v \<le> n" if "v \<in> visited n c" for v
    using that by (cases "v = 0") (auto simp: visited_def tables_ok_def)
  then have "visited n c \<subseteq> {1..n}" by auto
  then have "card (visited n c) \<le> card {1..n}" by (intro card_mono) simp_all
  then show ?thesis by simp
qed

lemma min_t_bound:
  assumes "tables_ok n c" "v \<le> n" "min_t c ! v \<noteq> INF_LL"
  shows "0 \<le> min_t c ! v" "min_t c ! v + C \<le> int (card (visited n c)) * C"
    "min_t c ! v + C \<le> int n * C"
proof -
  show 0: "0 \<le> min_t c ! v" and 1: "min_t c ! v + C \<le> int (card (visited n c)) * C"
    using assms by (simp_all add: tables_ok_def algebra_simps)
  have "int (card (visited n c)) * C \<le> int n * C"
    using card_visited[OF assms(1)] by (intro mult_right_mono) simp_all
  then show "min_t c ! v + C \<le> int n * C" using 1 by linarith
qed

lemma state_ok_time:
  assumes "tables_ok n c" "state_ok n c s"
  shows "0 \<le> total_time s" "total_time s + 1 \<le> int (card (visited n c)) * C"
    "total_time s + 1 \<le> int n * C"
  using min_t_bound[OF assms(1), of "st_u s"] assms(2) by (simp_all add: state_ok_def)

subsection \<open>The updates preserve the invariants\<close>

lemma tables_ok_store:
  assumes "tables_ok n c" "v \<le> n" "d < nat C" "0 \<le> x" "min_t c ! v \<noteq> INF_LL"
  shows "tables_ok n (store v d x c)"
proof -
  have sh: "shape n c" using assms(1) by (simp add: tables_ok_def)
  show ?thesis
    using assms unfolding tables_ok_def
    by (simp add: slot_store[OF sh assms(2,3)])
qed

lemma tables_ok_arrive:
  assumes ok: "tables_ok n c" and v: "1 \<le> v" "v \<le> n" and new: "min_t c ! v = INF_LL"
    and t: "0 \<le> t" "t \<le> int (card (visited n c)) * C" "t \<noteq> INF_LL"
  shows "tables_ok n (arrive v t c)"
proof -
  have sh: "shape n c" using ok by (simp add: tables_ok_def)
  have "v \<notin> visited n c" using new by (simp add: visited_def)
  then have card: "int (card (visited n (arrive v t c))) = int (card (visited n c)) + 1"
    by (simp add: visited_arrive[OF sh v(2) t(3)])
  have mono: "(int (card (visited n c)) - 1) * C \<le> int (card (visited n c)) * C"
    by (intro mult_right_mono) simp_all
  have "0 \<le> min_t (arrive v t c) ! v' \<and>
        min_t (arrive v t c) ! v' \<le> (int (card (visited n (arrive v t c))) - 1) * C"
    if "v' \<le> n" "min_t (arrive v t c) ! v' \<noteq> INF_LL" for v'
  proof (cases "v' = v")
    case True
    then show ?thesis using t by (simp add: min_t_arrive[OF sh v(2)] card)
  next
    case False
    then have "min_t c ! v' \<noteq> INF_LL" using that by (simp add: min_t_arrive[OF sh v(2)])
    then have "0 \<le> min_t c ! v'" "min_t c ! v' \<le> (int (card (visited n c)) - 1) * C"
      using ok that(1) by (simp_all add: tables_ok_def)
    then have "0 \<le> min_t c ! v'" "min_t c ! v' \<le> int (card (visited n c)) * C"
      using mono by linarith+
    then show ?thesis using False by (simp add: min_t_arrive[OF sh v(2)] card)
  qed
  moreover have "min_t (arrive v t c) ! 0 = INF_LL"
    using ok v by (simp add: min_t_arrive[OF sh v(2)] tables_ok_def)
  moreover have "min_t (arrive v t c) ! v' \<noteq> INF_LL \<and> 0 \<le> slot c v' d"
    if "v' \<le> n" "d < nat C" "slot c v' d \<noteq> INF_LL" for v' d
  proof -
    from ok that have "min_t c ! v' \<noteq> INF_LL" "0 \<le> slot c v' d" by (simp_all add: tables_ok_def)
    then show ?thesis using new by (auto simp: min_t_arrive[OF sh v(2)])
  qed
  ultimately show ?thesis using sh unfolding tables_ok_def by simp
qed

lemma off_bound: "state_ok n c s \<Longrightarrow> off c s < nat C"
  by (simp add: state_ok_def off_def)

lemma state_ok_store:
  assumes "state_ok n c s'" "shape n c" "v \<le> n" "d < nat C" "x \<le> slot c v d"
  shows "state_ok n (store v d x c) s'"
  using assms unfolding state_ok_def by (auto simp: slot_store)

lemma state_ok_arrive:
  assumes "state_ok n c s'" "shape n c" "v \<le> n" "min_t c ! v = INF_LL"
  shows "state_ok n (arrive v t c) s'"
proof -
  have "st_u s' \<noteq> v" using assms by (auto simp: state_ok_def)
  then have "off (arrive v t c) s' = off c s'" "min_t (arrive v t c) ! st_u s' = min_t c ! st_u s'"
    using assms by (simp_all add: off_def min_t_arrive)
  then show ?thesis using assms(1) by (simp add: state_ok_def)
qed

lemma early_store [simp]: "early n (store v d x c) t = early n c t"
  by (simp add: early_def)

lemma early_push [simp]: "early n (push s c) t = early n c t"
  by (simp add: early_def)

lemma state_ok_push [simp]: "state_ok n (push s c) s' = state_ok n c s'"
  by (simp add: state_ok_def)

lemma tables_ok_push [simp]: "tables_ok n (push s c) = tables_ok n c"
  by (simp add: tables_ok_def)

lemma early_arrive:
  "shape n c \<Longrightarrow> v \<le> n \<Longrightarrow> early n c t0 \<Longrightarrow> t \<le> t0 + 1 \<Longrightarrow> early n (arrive v t c) t0"
  by (simp add: early_def min_t_arrive)

lemma mid_wait_result:
  assumes "mid n s c"
  shows "mid n s (wait_result s c)"
proof (cases "total_time s + 1 < min_t c ! st_u s + C \<and>
              wait_time s + 1 < slot c (st_u s) (off c (wait_succ s))")
  case False
  then have "wait_result s c = c" by (auto simp: wait_result_def)
  then show ?thesis using assms by simp
next
  case True
  let ?u = "st_u s" and ?d = "off c (wait_succ s)" and ?x = "wait_time s + 1"
  let ?c' = "store ?u ?d ?x c"
  from assms have ok: "tables_ok n c" and s: "state_ok n c s" and e: "early n c (total_time s)"
    and q: "\<forall>s' \<in> set (pq c). state_ok n c s' \<and> total_time s \<le> total_time s'"
    by (simp_all add: mid_def)
  have sh: "shape n c" using ok by (simp add: tables_ok_def)
  have u: "?u \<le> n" "min_t c ! ?u \<noteq> INF_LL" "0 \<le> wait_time s" using s by (simp_all add: state_ok_def)
  have d: "?d < nat C" using True s by (simp add: off_def wait_succ_def state_ok_def)
  have x: "?x \<le> slot c ?u ?d" using True by simp
  have 1: "tables_ok n ?c'" using tables_ok_store[OF ok u(1) d _ u(2), of ?x] u(3) by simp
  have 2: "state_ok n ?c' s'" if "state_ok n c s'" for s'
    using state_ok_store[OF that sh u(1) d x] .
  have 3: "state_ok n ?c' (wait_succ s)"
    using s True d unfolding state_ok_def
    by (simp add: slot_store[OF sh u(1) d]) (simp add: wait_succ_def)
  have "mid n s (push (wait_succ s) ?c')"
    unfolding mid_def using 1 2 3 s e q by (auto simp: wait_succ_def)
  then show ?thesis using True by (simp add: wait_result_def)
qed

lemma INF_big: "2147483648 < INF_LL"
  by (simp add: INF_LL_def)

lemma mid_move_result:
  assumes m: "mid n s c" and v: "1 \<le> v" "v \<le> n" and nC: "int n * C < 2147483648"
  shows "mid n s (move_result s v c)"
proof -
  let ?t = "total_time s + 1" and ?w = "wait_time s"
  from m have ok: "tables_ok n c" and s: "state_ok n c s" and e: "early n c (total_time s)"
    and q: "\<forall>s' \<in> set (pq c). state_ok n c s' \<and> total_time s \<le> total_time s'"
    by (simp_all add: mid_def)
  have sh: "shape n c" using ok by (simp add: tables_ok_def)
  have tm: "0 \<le> total_time s" "?t \<le> int (card (visited n c)) * C" "?t \<le> int n * C"
    using state_ok_time[OF ok s] by simp_all
  have tI: "?t < INF_LL" using tm(3) nC INF_big by linarith
  have w: "0 \<le> ?w" "?w \<le> total_time s" using s by (simp_all add: state_ok_def)
  have C0: "0 < nat C" by simp
  show ?thesis
  proof (cases "?t < min_t c ! v")
    case True
    have new: "min_t c ! v = INF_LL"
      using True e v(2) unfolding early_def by force
    let ?c1 = "arrive v ?t c"
    let ?c2 = "store v 0 ?w ?c1"
    have sh1: "shape n ?c1" using sh by simp
    have mt1: "min_t ?c1 ! v = ?t" by (simp add: min_t_arrive[OF sh v(2)])
    have ok1: "tables_ok n ?c1"
      using tables_ok_arrive[OF ok v new _ tm(2)] tm(1) tI by simp
    have ok2: "tables_ok n ?c2"
      using tables_ok_store[OF ok1 v(2) C0 w(1)] mt1 tI by simp
    have sl: "slot c v 0 = INF_LL"
      using ok v(2) new C0 unfolding tables_ok_def by blast
    have x: "?w \<le> slot ?c1 v 0" using sl w tm tI by simp
    have 2: "state_ok n ?c2 s'" if "state_ok n c s'" for s'
      using state_ok_store[OF state_ok_arrive[OF that sh v(2) new] sh1 v(2) C0 x] .
    have 3: "state_ok n ?c2 (move_succ s v)"
      unfolding state_ok_def using v w tI
      by (simp add: move_succ_def off_def mt1 slot_store[OF sh1 v(2) C0])
    have 4: "early n ?c2 (total_time s)"
      using early_arrive[OF sh v(2) e, of ?t] by simp
    have "mid n s (push (move_succ s v) ?c2)"
      unfolding mid_def using ok2 2 3 4 s q by (auto simp: move_succ_def)
    then show ?thesis using True by (simp add: move_result_def)
  next
    case False
    show ?thesis
    proof (cases "?t - min_t c ! v < C \<and> ?w < slot c v (off c (move_succ s v))")
      case True
      let ?d = "off c (move_succ s v)"
      let ?c' = "store v ?d ?w c"
      have fin: "min_t c ! v \<noteq> INF_LL" using False tI by linarith
      have d: "?d < nat C" using True False by (simp add: off_def move_succ_def)
      have x: "?w \<le> slot c v ?d" using True by simp
      have 1: "tables_ok n ?c'" using tables_ok_store[OF ok v(2) d w(1) fin] .
      have 2: "state_ok n ?c' s'" if "state_ok n c s'" for s'
        using state_ok_store[OF that sh v(2) d x] .
      have 3: "state_ok n ?c' (move_succ s v)"
        unfolding state_ok_def using v w fin False True d
        by (simp add: slot_store[OF sh v(2) d]) (simp add: move_succ_def)
      have "mid n s (push (move_succ s v) ?c')"
        unfolding mid_def using 1 2 3 s e q by (auto simp: move_succ_def)
      then show ?thesis using True False by (simp add: move_result_def)
    next
      case F2: False
      then have "move_result s v c = c" using False by (auto simp: move_result_def)
      then show ?thesis using m by simp
    qed
  qed
qed

lemma mid_record_answer: "mid n s c \<Longrightarrow> mid n s (record_answer n' s' c)"
  by (simp add: mid_def record_answer_def tables_ok_def state_ok_def early_def shape_def
      slot_def off_def visited_def)

lemma is_top_min:
  assumes "is_top s q" "s' \<in> set q"
  shows "total_time s \<le> total_time s'"
  using assms unfolding is_top_def list_all_iff state_gt_def
  by (metis linorder_not_less order_less_imp_le)

lemma pop_simps [simp]:
  "min_t (pop s c) = min_t c" "min_w (pop s c) = min_w c" "ans (pop s c) = ans c"
  "pq (pop s c) = remove1 s (pq c)" "slot (pop s c) = slot c" "off (pop s c) = off c"
  "tables_ok n (pop s c) = tables_ok n c" "state_ok n (pop s c) = state_ok n c"
  "early n (pop s c) = early n c"
  by (simp_all add: pop_def slot_def off_def tables_ok_def state_ok_def early_def shape_def
      visited_def fun_eq_iff)

lemma inv_pop_mid:
  assumes "sinv n c" "is_top s (pq c)"
  shows "mid n s (pop s c)"
proof -
  have "s \<in> set (pq c)" using assms(2) by (simp add: is_top_def)
  moreover have "s' \<in> set (pq c)" if "s' \<in> set (remove1 s (pq c))" for s'
    using that set_remove1_subset[of s "pq c"] by blast
  ultimately show ?thesis
    using assms is_top_min[OF assms(2)] unfolding sinv_def mid_def by auto
qed

lemma mid_inv:
  assumes "mid n s c"
  shows "sinv n c"
  unfolding sinv_def
proof (intro conjI ballI)
  show "tables_ok n c" using assms by (simp add: mid_def)
  fix s' assume s': "s' \<in> set (pq c)"
  then show "state_ok n c s'" using assms by (simp add: mid_def)
  have "total_time s \<le> total_time s'" "early n c (total_time s)"
    using assms s' by (simp_all add: mid_def)
  then show "early n c (total_time s')" unfolding early_def by force
qed

subsection \<open>The loop body on a configuration that satisfies the invariant\<close>

definition next_node :: "(nat \<times> nat) list \<Rightarrow> State \<Rightarrow> nat option" where
  "next_node E s = edge_at E (st_u s) (total_time s)"

definition expand :: "(nat \<times> nat) list \<Rightarrow> nat \<Rightarrow> State \<Rightarrow> config \<Rightarrow> config" where
  "expand E n s c =
     (let c1 = record_answer n s c in
      if total_time s > fst (ans c1) then c1
      else (case next_node E s of
              None \<Rightarrow> wait_result s c1
            | Some v \<Rightarrow> move_result s v (wait_result s c1)))"

definition body_result :: "(nat \<times> nat) list \<Rightarrow> nat \<Rightarrow> State \<Rightarrow> config \<Rightarrow> config" where
  "body_result E n s c =
     (if wait_time s > slot c (st_u s) (off c s) then c else expand E n s c)"

lemma record_answer_simps [simp]:
  "min_t (record_answer n s c) = min_t c" "min_w (record_answer n s c) = min_w c"
  "pq (record_answer n s c) = pq c" "slot (record_answer n s c) = slot c"
  "off (record_answer n s c) = off c" "shape n' (record_answer n s c) = shape n' c"
  by (simp_all add: record_answer_def slot_def off_def shape_def fun_eq_iff)

lemma next_node_range:
  assumes "well_formed n E" "next_node E s = Some v"
  shows "1 \<le> v \<and> v \<le> n"
proof -
  let ?inc = "incident E (st_u s)"
  from assms(2) have ne: "?inc \<noteq> []" and v: "v = ?inc ! nat (total_time s mod int (length ?inc))"
    by (auto simp: next_node_def edge_at_def split: if_splits)
  have "0 < int (length ?inc)" using ne by simp
  then have "total_time s mod int (length ?inc) < int (length ?inc)" "0 \<le> total_time s mod int (length ?inc)"
    by simp_all
  then have "nat (total_time s mod int (length ?inc)) < length ?inc" by linarith
  then have "v \<in> set ?inc" unfolding v by (rule nth_mem)
  then show ?thesis by (rule well_formed_bounds(4)[OF assms(1)])
qed

lemma relax_move_eff:
  assumes wf: "well_formed n E" and G: "graph_ok E n G" and m: "mid n s c"
  shows "relax_move G s c =
           Some (case next_node E s of None \<Rightarrow> c | Some v \<Rightarrow> move_result s v c)"
proof -
  from m have ok: "tables_ok n c" and s: "state_ok n c s" by (simp_all add: mid_def)
  have sh: "shape n c" using ok by (simp add: tables_ok_def)
  have u: "1 \<le> st_u s" "st_u s \<le> n" using s by (simp_all add: state_ok_def)
  have t: "0 \<le> total_time s" "total_time s + 1 \<le> int n * C" using state_ok_time[OF ok s] by simp_all
  have sel: "select_edge G (st_u s) (total_time s) = Some (next_node E s)"
    using select_edge_ok[OF wf G u t(1)] by (simp add: next_node_def edge_at_def)
  show ?thesis
  proof (cases "next_node E s")
    case None
    then show ?thesis using sel by (simp add: relax_move_def)
  next
    case (Some v)
    then have v: "1 \<le> v" "v \<le> n" using next_node_range[OF wf] by simp_all
    have "0 \<le> min_t c ! v"
      using ok v(2) unfolding tables_ok_def by (cases "min_t c ! v = INF_LL") (simp_all add: INF_LL_def)
    moreover have "total_time s + 1 < 2147483648"
      using t(2) well_formed_bounds(2)[OF wf] by linarith
    ultimately have "accept_move s v c = Some (move_result s v c)"
      using accept_move_eff[OF sh v(2) t(1)] by simp
    then show ?thesis using sel Some by (simp add: relax_move_def)
  qed
qed

lemma body_eff:
  assumes wf: "well_formed n E" and G: "graph_ok E n G" and m: "mid n s c"
  shows "body G n s c = Some (body_result E n s c)"
proof -
  from m have ok: "tables_ok n c" and s: "state_ok n c s" by (simp_all add: mid_def)
  have sh: "shape n c" using ok by (simp add: tables_ok_def)
  let ?u = "st_u s" and ?t = "total_time s"
  let ?mt = "min_t c ! ?u"
  have u: "?u \<le> n" "?mt \<noteq> INF_LL" "?mt \<le> ?t" "?t < ?mt + C"
    using s by (simp_all add: state_ok_def)
  have rd: "rd (min_t c) ?u = Some ?mt" using sh u(1) by (simp add: rd_def shape_def)
  have "C < 2147483648" by (simp add: C_def)
  then have dt: "to_int32 (?t - ?mt) = ?t - ?mt" using u by (simp add: to_int32_id)
  have o: "off c s < nat C" "off c s = nat (?t - ?mt)" using u by (simp_all add: off_def)
  have rda: "rd_at (min_w c) ?u (?t - ?mt) = Some (slot c ?u (off c s))"
    using sh u o by (simp add: rd_at_def slot_def shape_def)
  show ?thesis
  proof (cases "wait_time s > slot c ?u (off c s)")
    case True
    then show ?thesis using rd u dt rda by (simp add: body_def body_result_def Let_def)
  next
    case False
    let ?c1 = "record_answer n s c"
    have m1: "mid n s ?c1" by (rule mid_record_answer[OF m])
    have w: "relax_wait s (?t - ?mt) ?c1 = Some (wait_result s ?c1)"
      by (rule relax_wait_eff[of n]) (use sh u in simp_all)
    have m2: "mid n s (wait_result s ?c1)" by (rule mid_wait_result[OF m1])
    show ?thesis
      using False rd u dt rda w relax_move_eff[OF wf G m2]
      by (simp add: body_def body_result_def expand_def Let_def)
  qed
qed

lemma mid_body_result:
  assumes wf: "well_formed n E" and m: "mid n s c"
  shows "mid n s (body_result E n s c)"
proof -
  let ?c1 = "record_answer n s c"
  have m1: "mid n s ?c1" by (rule mid_record_answer[OF m])
  have m2: "mid n s (wait_result s ?c1)" by (rule mid_wait_result[OF m1])
  have "mid n s (move_result s v (wait_result s ?c1))" if "next_node E s = Some v" for v
    using mid_move_result[OF m2 _ _ well_formed_bounds(2)[OF wf]] next_node_range[OF wf that] by simp
  then show ?thesis
    using m m1 m2 by (auto simp: body_result_def expand_def Let_def split: option.splits)
qed

lemma step_eff:
  assumes wf: "well_formed n E" and G: "graph_ok E n G" and i: "sinv n c"
  shows "step G n c c' \<longleftrightarrow> (\<exists>s. is_top s (pq c) \<and> c' = body_result E n s (pop s c))"
  unfolding step_def using body_eff[OF wf G inv_pop_mid[OF i]] by auto

lemma step_inv:
  assumes wf: "well_formed n E" and G: "graph_ok E n G" and i: "sinv n c" and st: "step G n c c'"
  shows "sinv n c'"
proof -
  from st obtain s where s: "is_top s (pq c)" "c' = body_result E n s (pop s c)"
    unfolding step_eff[OF wf G i] by blast
  show ?thesis unfolding s(2)
    by (rule mid_inv[OF mid_body_result[OF wf inv_pop_mid[OF i s(1)]]])
qed

subsection \<open>The initial configuration\<close>

definition seed :: State where
  "seed = \<lparr>total_time = 0, wait_time = 0, st_u = 1\<rparr>"

definition init_config :: "nat \<Rightarrow> config" where
  "init_config n =
     \<lparr> min_t = (replicate (n + 1) INF_LL)[1 := 0],
       min_w = (replicate (n + 1) (replicate (nat C) INF_LL))[1 := (replicate (nat C) INF_LL)[0 := 0]],
       pq = [seed], ans = (INF_LL, INF_LL) \<rparr>"

lemma init_eff: "1 \<le> n \<Longrightarrow> init n = Some (init_config n)"
  by (simp add: init_def init_config_def wr_def wr_at_def seed_def Let_def del: replicate.simps replicate_Suc)

lemma init_config_tables:
  assumes "1 \<le> n"
  shows "v \<le> n \<Longrightarrow> min_t (init_config n) ! v = (if v = 1 then 0 else INF_LL)"
    and "v \<le> n \<Longrightarrow> d < nat C \<Longrightarrow>
         slot (init_config n) v d = (if v = 1 \<and> d = 0 then 0 else INF_LL)"
    and "shape n (init_config n)"
  using assms
  by (auto simp: init_config_def slot_def shape_def nth_list_update simp del: replicate.simps replicate_Suc)

lemma visited_init: "1 \<le> n \<Longrightarrow> visited n (init_config n) = {1}"
  by (auto simp: visited_def init_config_tables(1) INF_LL_def split: if_splits)

lemma inv_init:
  assumes "1 \<le> n"
  shows "sinv n (init_config n)"
proof -
  have t: "tables_ok n (init_config n)"
    unfolding tables_ok_def using assms
    by (auto simp: init_config_tables visited_init INF_LL_def)
  have "pq (init_config n) = [seed]" by (simp add: init_config_def)
  moreover have "state_ok n (init_config n) seed"
    using assms by (simp add: state_ok_def seed_def off_def init_config_tables INF_LL_def)
  moreover have "early n (init_config n) (total_time seed)"
    using assms by (simp add: early_def init_config_tables seed_def)
  ultimately show ?thesis using t by (simp add: sinv_def)
qed

subsection \<open>Every configuration an execution reaches satisfies the invariant\<close>

lemma runs_init:
  "well_formed n E \<Longrightarrow> runs n E (init_config n)"
  using read_graph_ok[of n E] init_eff[of n] by (auto simp: runs_def well_formed_def)

lemma runs_cases:
  assumes wf: "well_formed n E" and G: "graph_ok E n G" and r: "read_graph n E = Some G"
  shows "runs n E c \<longleftrightarrow> (step G n)\<^sup>*\<^sup>* (init_config n) c"
  using init_eff[of n] wf r by (auto simp: runs_def well_formed_def)

lemma runs_induct [consumes 2, case_names init step]:
  assumes wf: "well_formed n E" and r: "runs n E c"
    and base: "P (init_config n)"
    and stp: "\<And>c s. runs n E c \<Longrightarrow> sinv n c \<Longrightarrow> P c \<Longrightarrow> is_top s (pq c) \<Longrightarrow>
                 P (body_result E n s (pop s c))"
  shows "P c \<and> sinv n c"
proof -
  from read_graph_ok[OF wf] obtain G where G: "read_graph n E = Some G" "graph_ok E n G" by blast
  have n: "1 \<le> n" using wf by (simp add: well_formed_def)
  from r have "(step G n)\<^sup>*\<^sup>* (init_config n) c" using runs_cases[OF wf G(2,1)] by simp
  then show ?thesis
  proof (induction rule: rtranclp_induct)
    case base
    show ?case using assms(3) inv_init[OF n] by simp
  next
    case (step c c')
    then have rc: "runs n E c" using runs_cases[OF wf G(2,1)] by simp
    from step have i: "sinv n c" and p: "P c" by simp_all
    from step(2) obtain s where s: "is_top s (pq c)" "c' = body_result E n s (pop s c)"
      unfolding step_eff[OF wf G(2) i] by blast
    show ?case using stp[OF rc i p s(1)] step_inv[OF wf G(2) i step(2)] s(2) by simp
  qed
qed

lemma runs_inv: "well_formed n E \<Longrightarrow> runs n E c \<Longrightarrow> sinv n c"
  using runs_induct[where P = "\<lambda>_. True"] by blast

lemma runs_step:
  assumes wf: "well_formed n E" and r: "runs n E c" and s: "is_top s (pq c)"
  shows "runs n E (body_result E n s (pop s c))"
proof -
  from read_graph_ok[OF wf] obtain G where G: "read_graph n E = Some G" "graph_ok E n G" by blast
  have "step G n c (body_result E n s (pop s c))"
    unfolding step_eff[OF wf G(2) runs_inv[OF wf r]] using s by blast
  then show ?thesis using r G(1) unfolding runs_def by (auto intro: rtranclp.rtrancl_into_rtrancl)
qed

text \<open>The values the search stores: no 64-bit or 32-bit overflow can occur.\<close>

lemma reach_bounds:
  assumes wf: "well_formed n E" and r: "runs n E c"
  shows "int n * C < 2147483648"
    and "s \<in> set (pq c) \<Longrightarrow>
           0 \<le> wait_time s \<and> wait_time s \<le> total_time s \<and> total_time s < int n * C \<and>
           0 \<le> total_time s - min_t c ! st_u s \<and> total_time s - min_t c ! st_u s < C"
    and "v \<le> n \<Longrightarrow> min_t c ! v = INF_LL \<or> (0 \<le> min_t c ! v \<and> min_t c ! v < int n * C)"
    and "v \<le> n \<Longrightarrow> d < nat C \<Longrightarrow> slot c v d = INF_LL \<or> 0 \<le> slot c v d"
proof -
  have i: "sinv n c" by (rule runs_inv[OF wf r])
  then have ok: "tables_ok n c" by (simp add: sinv_def)
  show "int n * C < 2147483648" by (rule well_formed_bounds(2)[OF wf])
  show "0 \<le> wait_time s \<and> wait_time s \<le> total_time s \<and> total_time s < int n * C \<and>
        0 \<le> total_time s - min_t c ! st_u s \<and> total_time s - min_t c ! st_u s < C"
    if "s \<in> set (pq c)"
  proof -
    have so: "state_ok n c s" using i that by (simp add: sinv_def)
    then show ?thesis using state_ok_time(3)[OF ok so] by (simp add: state_ok_def)
  qed
  show "min_t c ! v = INF_LL \<or> (0 \<le> min_t c ! v \<and> min_t c ! v < int n * C)" if "v \<le> n"
  proof (cases "min_t c ! v = INF_LL")
    case True
    then show ?thesis by simp
  next
    case False
    have "0 < C" by simp
    then show ?thesis using min_t_bound(1,3)[OF ok that False] by linarith
  qed
  show "slot c v d = INF_LL \<or> 0 \<le> slot c v d" if "v \<le> n" "d < nat C"
    using ok that unfolding tables_ok_def by blast
qed

subsection \<open>Termination: a potential that every iteration decreases\<close>

text \<open>Twice the sum of all table entries, plus the number of queued states.\<close>

definition potential :: "config \<Rightarrow> int" where
  "potential c =
     2 * (sum_list (min_t c) + sum_list (map sum_list (min_w c))) + int (length (pq c))"

lemma sum_list_update_int:
  "i < length xs \<Longrightarrow> sum_list (xs[i := y]) = sum_list xs - xs ! i + (y::int)"
proof (induction xs arbitrary: i)
  case Nil
  then show ?case by simp
next
  case (Cons a xs)
  then show ?case by (cases i) simp_all
qed

lemma sum_list_nonneg_nth:
  "(\<And>i. i < length xs \<Longrightarrow> 0 \<le> xs ! i) \<Longrightarrow> 0 \<le> sum_list (xs::int list)"
  by (rule sum_list_nonneg) (auto simp: in_set_conv_nth)

lemma potential_store:
  assumes "shape n c" "v \<le> n" "d < nat C"
  shows "potential (store v d x c) = potential c - 2 * (slot c v d - x)"
proof -
  have v: "v < length (min_w c)" "d < length (min_w c ! v)" using assms by (simp_all add: shape_def)
  have "map sum_list ((min_w c)[v := (min_w c ! v)[d := x]])
        = (map sum_list (min_w c))[v := sum_list ((min_w c ! v)[d := x])]"
    by (rule map_update)
  then have "sum_list (map sum_list (min_w (store v d x c)))
        = sum_list (map sum_list (min_w c)) - sum_list (min_w c ! v)
          + (sum_list (min_w c ! v) - min_w c ! v ! d + x)"
    using v by (simp add: store_def sum_list_update_int)
  then show ?thesis by (simp add: potential_def slot_def)
qed

lemma potential_arrive:
  assumes "shape n c" "v \<le> n"
  shows "potential (arrive v t c) = potential c - 2 * (min_t c ! v - t)"
  using assms by (simp add: potential_def arrive_def shape_def sum_list_update_int)

lemma potential_push [simp]: "potential (push s c) = potential c + 1"
  by (simp add: potential_def)

lemma potential_record_answer [simp]: "potential (record_answer n s c) = potential c"
  by (simp add: potential_def)

lemma potential_pop:
  assumes "s \<in> set (pq c)"
  shows "potential (pop s c) = potential c - 1"
proof -
  have "0 < length (pq c)" using assms by (cases "pq c") auto
  moreover have "length (remove1 s (pq c)) = length (pq c) - 1"
    using assms by (simp add: length_remove1)
  ultimately have "int (length (remove1 s (pq c))) = int (length (pq c)) - 1"
    by linarith
  then show ?thesis by (simp add: potential_def)
qed

lemma potential_nonneg:
  assumes "tables_ok n c"
  shows "0 \<le> potential c"
proof -
  have sh: "length (min_t c) = n + 1" "length (min_w c) = n + 1" "\<And>v. v \<le> n \<Longrightarrow> length (min_w c ! v) = nat C"
    using assms by (simp_all add: tables_ok_def shape_def)
  have "0 \<le> min_t c ! v" if "v < length (min_t c)" for v
    using assms that sh(1) unfolding tables_ok_def
    by (cases "min_t c ! v = INF_LL") (simp_all add: INF_LL_def)
  then have 1: "0 \<le> sum_list (min_t c)" by (rule sum_list_nonneg_nth)
  have "0 \<le> sum_list (min_w c ! v)" if v: "v < length (min_w c)" for v
  proof (rule sum_list_nonneg_nth)
    fix d assume "d < length (min_w c ! v)"
    then have "v \<le> n" "d < nat C" using v sh by simp_all
    then show "0 \<le> min_w c ! v ! d"
      using assms unfolding tables_ok_def slot_def
      by (cases "min_w c ! v ! d = INF_LL") (simp_all add: INF_LL_def)
  qed
  then have 2: "0 \<le> sum_list (map sum_list (min_w c))"
    by (intro sum_list_nonneg_nth) simp
  show ?thesis using 1 2 by (simp add: potential_def)
qed

lemma potential_wait_result:
  assumes "mid n s c"
  shows "potential (wait_result s c) \<le> potential c"
proof (cases "total_time s + 1 < min_t c ! st_u s + C \<and>
              wait_time s + 1 < slot c (st_u s) (off c (wait_succ s))")
  case True
  from assms have sh: "shape n c" and s: "state_ok n c s" by (simp_all add: mid_def tables_ok_def)
  have "off c (wait_succ s) < nat C" "st_u s \<le> n"
    using True s by (simp_all add: off_def wait_succ_def state_ok_def)
  then show ?thesis using True potential_store[OF sh] by (simp add: wait_result_def)
next
  case False
  then have "wait_result s c = c" by (auto simp: wait_result_def)
  then show ?thesis by simp
qed

lemma potential_move_result:
  assumes m: "mid n s c" and v: "1 \<le> v" "v \<le> n" and nC: "int n * C < 2147483648"
  shows "potential (move_result s v c) \<le> potential c"
proof -
  let ?t = "total_time s + 1" and ?w = "wait_time s"
  from m have ok: "tables_ok n c" and s: "state_ok n c s" and e: "early n c (total_time s)"
    by (simp_all add: mid_def)
  have sh: "shape n c" using ok by (simp add: tables_ok_def)
  have tm: "0 \<le> total_time s" "?t \<le> int n * C" using state_ok_time[OF ok s] by simp_all
  have tI: "?t < INF_LL" using tm(2) nC INF_big by linarith
  have w: "?w \<le> total_time s" using s by (simp add: state_ok_def)
  have C0: "0 < nat C" by simp
  show ?thesis
  proof (cases "?t < min_t c ! v")
    case True
    have new: "min_t c ! v = INF_LL" using True e v(2) unfolding early_def by force
    have sl: "slot c v 0 = INF_LL" using ok v(2) new C0 unfolding tables_ok_def by blast
    have "potential (store v 0 ?w (arrive v ?t c))
          = potential c - 2 * (INF_LL - ?t) - 2 * (INF_LL - ?w)"
      using potential_store[of n "arrive v ?t c" v 0 ?w] potential_arrive[OF sh v(2), of ?t] sh v(2) C0 sl new
      by simp
    then show ?thesis using True tI w by (simp add: move_result_def)
  next
    case False
    show ?thesis
    proof (cases "?t - min_t c ! v < C \<and> ?w < slot c v (off c (move_succ s v))")
      case True
      have "off c (move_succ s v) < nat C" using True False by (simp add: off_def move_succ_def)
      then show ?thesis using True False potential_store[OF sh v(2)] by (simp add: move_result_def)
    next
      case F2: False
      then have "move_result s v c = c" using False by (auto simp: move_result_def)
      then show ?thesis by simp
    qed
  qed
qed

lemma potential_body_result:
  assumes wf: "well_formed n E" and m: "mid n s c"
  shows "potential (body_result E n s c) \<le> potential c"
proof -
  let ?c1 = "record_answer n s c"
  have m1: "mid n s ?c1" by (rule mid_record_answer[OF m])
  have 1: "potential (wait_result s ?c1) \<le> potential c"
    using potential_wait_result[OF m1] by simp
  have m2: "mid n s (wait_result s ?c1)" by (rule mid_wait_result[OF m1])
  have "potential (move_result s v (wait_result s ?c1)) \<le> potential c" if "next_node E s = Some v" for v
    using potential_move_result[OF m2 _ _ well_formed_bounds(2)[OF wf], of v]
      next_node_range[OF wf that] 1 by simp
  then show ?thesis
    using 1 by (auto simp: body_result_def expand_def Let_def split: option.splits)
qed

lemma step_potential:
  assumes wf: "well_formed n E" and i: "sinv n c" and s: "is_top s (pq c)"
  shows "potential (body_result E n s (pop s c)) < potential c"
    "0 \<le> potential (body_result E n s (pop s c))"
proof -
  have m: "mid n s (pop s c)" by (rule inv_pop_mid[OF i s])
  have "s \<in> set (pq c)" using s by (simp add: is_top_def)
  then show "potential (body_result E n s (pop s c)) < potential c"
    using potential_body_result[OF wf m] potential_pop[of s c] by simp
  have "tables_ok n (body_result E n s (pop s c))"
    using mid_body_result[OF wf m] by (simp add: mid_def)
  then show "0 \<le> potential (body_result E n s (pop s c))" by (rule potential_nonneg)
qed

lemma wf_runs_step:
  assumes wf: "well_formed n E" and G: "graph_ok E n G"
  shows "wf {(c', c). runs n E c \<and> step G n c c'}"
proof (rule wf_subset)
  show "wf (measure (\<lambda>c. nat (potential c)))" by simp
  show "{(c', c). runs n E c \<and> step G n c c'} \<subseteq> measure (\<lambda>c. nat (potential c))"
  proof clarify
    fix c' c assume r: "runs n E c" and st: "step G n c c'"
    have i: "sinv n c" by (rule runs_inv[OF wf r])
    from st obtain s where s: "is_top s (pq c)" "c' = body_result E n s (pop s c)"
      unfolding step_eff[OF wf G i] by blast
    show "(c', c) \<in> measure (\<lambda>c. nat (potential c))"
      using step_potential[OF wf i s(1)] s(2) by simp
  qed
qed

subsection \<open>The run that pops the first minimal element\<close>

lemma state_gt_asym: "state_gt a b \<Longrightarrow> \<not> state_gt b a"
  by (auto simp: state_gt_def split: if_splits)

lemma state_gt_neg_trans: "\<not> state_gt a b \<Longrightarrow> \<not> state_gt b x \<Longrightarrow> \<not> state_gt a x"
  by (auto simp: state_gt_def split: if_splits)

lemma pq_top_is_top: "q \<noteq> [] \<Longrightarrow> is_top (pq_top q) q"
proof (induction q rule: pq_top.induct)
  case 1
  then show ?case by simp
next
  case (2 s)
  then show ?case by (simp add: is_top_def state_gt_def)
next
  case (3 s a q)
  let ?m = "pq_top (a # q)"
  from 3 have m: "?m \<in> set (a # q)" "\<forall>x \<in> set (a # q). \<not> state_gt ?m x"
    by (simp_all add: is_top_def list_all_iff)
  show ?case
  proof (cases "state_gt s ?m")
    case True
    then show ?thesis using m state_gt_asym[OF True]
      by (simp add: is_top_def list_all_iff Let_def)
  next
    case False
    have "\<not> state_gt s s" by (simp add: state_gt_def)
    moreover have "\<not> state_gt s x" if "x \<in> set (a # q)" for x
      using state_gt_neg_trans[OF False] m(2) that by blast
    ultimately show ?thesis using False
      by (simp add: is_top_def list_all_iff Let_def)
  qed
qed

lemma search_runs:
  assumes wf: "well_formed n E" and G: "graph_ok E n G" and r: "runs n E c"
  shows "\<exists>c'. search G n c = Some c' \<and> runs n E c' \<and> pq c' = []"
  using r
proof (induction "nat (potential c)" arbitrary: c rule: less_induct)
  case less
  show ?case
  proof (cases "pq c = []")
    case True
    then show ?thesis using less.prems by (subst search.simps) simp
  next
    case False
    let ?s = "pq_top (pq c)"
    let ?c' = "body_result E n ?s (pop ?s c)"
    have top: "is_top ?s (pq c)" by (rule pq_top_is_top[OF False])
    have i: "sinv n c" by (rule runs_inv[OF wf less.prems])
    have b: "body G n ?s (pop ?s c) = Some ?c'"
      by (rule body_eff[OF wf G inv_pop_mid[OF i top]])
    have "nat (potential ?c') < nat (potential c)"
      using step_potential[OF wf i top] by simp
    from less.hyps[OF this runs_step[OF wf less.prems top]]
    show ?thesis using False b by (subst search.simps) simp
  qed
qed

section \<open>The claims\<close>

lemma read_graph_graph_ok:
  "well_formed n E \<Longrightarrow> read_graph n E = Some G \<Longrightarrow> graph_ok E n G"
  using read_graph_ok[of n E] by auto

lemma solve_final:
  assumes wf: "well_formed n E"
  shows "\<exists>c. solve n E = Some (ans c) \<and> final n E c"
proof -
  from read_graph_ok[OF wf] obtain G where G: "read_graph n E = Some G" "graph_ok E n G" by blast
  have n: "1 \<le> n" using wf by (simp add: well_formed_def)
  from search_runs[OF wf G(2) runs_init[OF wf]] obtain c where
    c: "search G n (init_config n) = Some c" "runs n E c" "pq c = []" by blast
  have "solve n E = Some (ans c)" using G(1) init_eff[OF n] c(1) by (simp add: solve_def)
  then show ?thesis using c by (auto simp: final_def)
qed

text \<open>
  Claim C9.  On every well-formed input the search terminates: the run that \<open>solve\<close>
  performs returns a result, and no execution, however the queue breaks ties, is
  infinite (the step relation restricted to reachable configurations is well-founded).
  The reason is the one the claim gives: the potential, twice the sum of the entries of
  \<open>min_t\<close> and \<open>min_w\<close> plus the number of queued states, is a non-negative integer
  that every iteration strictly decreases, since a push happens only together with a
  strict decrease of a table entry.
\<close>

theorem search_terminates:
  "well_formed n edges \<Longrightarrow>
     (\<exists>r. solve n edges = Some r) \<and>
     (\<exists>G. read_graph n edges = Some G \<and>
          wf {(c', c). runs n edges c \<and> step G n c c'} \<and>
          (\<forall>c c'. runs n edges c \<and> step G n c c' \<longrightarrow>
                    0 \<le> potential c' \<and> potential c' < potential c))"
proof -
  assume wf: "well_formed n edges"
  from read_graph_ok[OF wf] obtain G where G: "read_graph n edges = Some G" "graph_ok edges n G" by blast
  have "0 \<le> potential c' \<and> potential c' < potential c" if "runs n edges c" "step G n c c'" for c c'
  proof -
    have i: "sinv n c" by (rule runs_inv[OF wf that(1)])
    from that(2) obtain s where s: "is_top s (pq c)" "c' = body_result edges n s (pop s c)"
      unfolding step_eff[OF wf G(2) i] by blast
    show ?thesis using step_potential[OF wf i s(1)] s(2) by simp
  qed
  then show ?thesis using solve_final[OF wf] wf_runs_step[OF wf G(2)] G(1) by blast
qed

theorem search_terminates_witness:
  "well_formed 1 [] \<and> (\<exists>r. solve 1 [] = Some r)"
  using search_terminates[of 1 "[]"] by (simp add: well_formed_def C_def)

text \<open>
  Claim C10.  On every well-formed input, in every configuration an execution reaches
  and for every state the queue may return, the iteration runs without an access outside
  a vector: the model's \<open>body\<close> returns \<open>None\<close> exactly when some index of
  \<open>min_t\<close>, \<open>min_w\<close>, \<open>deg\<close> or \<open>adj\<close> is out of range, and it returns
  \<open>Some\<close>.  The popped state's node is in \<open>1..n\<close>, its time is at least
  \<open>min_t\<close> of its node, and its offset is below \<open>C\<close>.  Reading the graph and
  the initial writes are in range as well.
\<close>

theorem no_out_of_bounds_access:
  "well_formed n edges \<Longrightarrow> runs n edges c \<Longrightarrow> is_top s (pq c) \<Longrightarrow>
     (\<exists>G c0 c'. read_graph n edges = Some G \<and> init n = Some c0 \<and>
                 body G n s (pop s c) = Some c') \<and>
     min_t c ! st_u s \<le> total_time s \<and> total_time s - min_t c ! st_u s < C \<and>
     1 \<le> st_u s \<and> st_u s \<le> n"
proof -
  assume wf: "well_formed n edges" and r: "runs n edges c" and s: "is_top s (pq c)"
  from read_graph_ok[OF wf] obtain G where G: "read_graph n edges = Some G" "graph_ok edges n G" by blast
  have n: "1 \<le> n" using wf by (simp add: well_formed_def)
  have i: "sinv n c" by (rule runs_inv[OF wf r])
  have "s \<in> set (pq c)" using s by (simp add: is_top_def)
  then have "state_ok n c s" using i by (simp add: sinv_def)
  then show ?thesis
    using body_eff[OF wf G(2) inv_pop_mid[OF i s]] G(1) init_eff[OF n]
    by (simp add: state_ok_def)
qed

theorem no_out_of_bounds_access_witness:
  "well_formed 1 [] \<and> runs 1 [] (init_config 1) \<and> is_top seed (pq (init_config 1)) \<and>
   (\<exists>c'. body (the (read_graph 1 [])) 1 seed (pop seed (init_config 1)) = Some c')"
proof -
  have wf: "well_formed 1 []" by (simp add: well_formed_def C_def)
  have top: "is_top seed (pq (init_config 1))"
    by (simp add: init_config_def is_top_def state_gt_def)
  from no_out_of_bounds_access[OF wf runs_init[OF wf] top]
  show ?thesis using wf runs_init[OF wf] top by auto
qed

subsection \<open>What one iteration can do to the queue and the answer\<close>

lemma relax_wait_pq:
  assumes "relax_wait s dt c = Some c'"
  shows "ans c' = ans c \<and> (pq c' = pq c \<or> pq c' = pq c @ [wait_succ s])"
  using assms unfolding relax_wait_def Let_def
  by (auto simp: push_def wait_succ_def split: option.splits if_splits)

lemma accept_move_pq:
  assumes "accept_move s v c = Some c'"
  shows "ans c' = ans c \<and> (pq c' = pq c \<or> pq c' = pq c @ [move_succ s v])"
  using assms unfolding accept_move_def Let_def
  by (auto simp: push_def move_succ_def split: option.splits if_splits)

lemma relax_move_pq:
  assumes "relax_move G s c = Some c'"
  shows "ans c' = ans c \<and> (pq c' = pq c \<or> (\<exists>v. pq c' = pq c @ [move_succ s v]))"
  using assms accept_move_pq[of s _ c c'] unfolding relax_move_def
  by (auto split: option.splits)

lemma body_pq:
  assumes "body G n s c = Some c'"
  shows "\<forall>x \<in> set (pq c'). x \<in> set (pq c) \<or> x = wait_succ s \<or> (\<exists>v. x = move_succ s v)"
proof -
  have 1: "?thesis" if "c' = c \<or> c' = record_answer n s c"
    using that by auto
  have 2: "?thesis" if "relax_wait s dt (record_answer n s c) = Some c2" "relax_move G s c2 = Some c'"
    for dt c2
    using relax_wait_pq[OF that(1)] relax_move_pq[OF that(2)]
    by auto
  show ?thesis
    using assms 1 2 unfolding body_def Let_def
    by (auto split: option.splits if_splits)
qed


lemma init_pq: "init n = Some c0 \<Longrightarrow> pq c0 = [seed] \<and> ans c0 = (INF_LL, INF_LL)"
  by (auto simp: init_def Let_def seed_def split: option.splits)

text \<open>
  Claim C6.  Every state on the frontier has waited no longer than its time: in every
  configuration an execution reaches (on any input, well-formed or not), every queued
  state has \<open>0 \<le> wait_time \<le> total_time\<close>.  The seed is \<open>(0, 0)\<close> at node 1, and a
  state that an iteration adds is the wait successor (both components plus one) or a
  move successor (time plus one, wait unchanged) of the popped state.
\<close>

theorem wait_le_time:
  "runs n edges c \<Longrightarrow> s \<in> set (pq c) \<Longrightarrow>
     0 \<le> wait_time s \<and> wait_time s \<le> total_time s"
proof -
  assume r: "runs n edges c" and s: "s \<in> set (pq c)"
  from r obtain G c0 where c0: "init n = Some c0" and st: "(step G n)\<^sup>*\<^sup>* c0 c"
    by (auto simp: runs_def)
  from st have "\<forall>s \<in> set (pq c). 0 \<le> wait_time s \<and> wait_time s \<le> total_time s"
  proof (induction rule: rtranclp_induct)
    case base
    show ?case using init_pq[OF c0] by (simp add: seed_def)
  next
    case (step c c')
    from step(2) obtain p where p: "is_top p (pq c)" "body G n p (pop p c) = Some c'"
      by (auto simp: step_def)
    have pin: "p \<in> set (pq c)" using p(1) by (simp add: is_top_def)
    have old: "x \<in> set (pq c)" if "x \<in> set (pq (pop p c))" for x
      using that set_remove1_subset[of p "pq c"] by auto
    show ?case
    proof
      fix x assume "x \<in> set (pq c')"
      with body_pq[OF p(2)] have "x \<in> set (pq (pop p c)) \<or> x = wait_succ p \<or> (\<exists>v. x = move_succ p v)"
        by blast
      then show "0 \<le> wait_time x \<and> wait_time x \<le> total_time x"
        using step.IH pin old by (auto simp: wait_succ_def move_succ_def)
    qed
  qed
  then show ?thesis using s by blast
qed

theorem wait_le_time_witness:
  "runs 1 [] (init_config 1) \<and> seed \<in> set (pq (init_config 1)) \<and>
   0 \<le> wait_time seed \<and> wait_time seed \<le> total_time seed"
proof -
  have wf: "well_formed 1 []" by (simp add: well_formed_def C_def)
  have s: "seed \<in> set (pq (init_config 1))" by (simp add: init_config_def)
  from wait_le_time[OF runs_init[OF wf] s] show ?thesis using runs_init[OF wf] s by simp
qed

subsection \<open>The successors, field by field\<close>

lemma move_result_fields:
  "move_result s v c =
     (if total_time s + 1 < min_t c ! v
      then c\<lparr>min_t := (min_t c)[v := total_time s + 1],
             min_w := (min_w c)[v := (min_w c ! v)[0 := wait_time s]],
             pq := pq c @ [\<lparr>total_time = total_time s + 1, wait_time = wait_time s, st_u = v\<rparr>]\<rparr>
      else if total_time s + 1 - min_t c ! v < C \<and>
              wait_time s < min_w c ! v ! nat (total_time s + 1 - min_t c ! v)
      then c\<lparr>min_w := (min_w c)[v := (min_w c ! v)[nat (total_time s + 1 - min_t c ! v) := wait_time s]],
             pq := pq c @ [\<lparr>total_time = total_time s + 1, wait_time = wait_time s, st_u = v\<rparr>]\<rparr>
      else c)"
  by (simp add: move_result_def push_def store_def arrive_def move_succ_def off_def slot_def)

lemma wait_result_fields:
  "wait_result s c =
     (if total_time s + 1 - min_t c ! st_u s < C \<and>
         wait_time s + 1 < min_w c ! st_u s ! nat (total_time s + 1 - min_t c ! st_u s)
      then c\<lparr>min_w := (min_w c)[st_u s := (min_w c ! st_u s)
                          [nat (total_time s + 1 - min_t c ! st_u s) := wait_time s + 1]],
             pq := pq c @ [\<lparr>total_time = total_time s + 1, wait_time = wait_time s + 1,
                             st_u = st_u s\<rparr>]\<rparr>
      else c)"
proof -
  have "total_time s + 1 - min_t c ! st_u s < C \<longleftrightarrow> total_time s + 1 < min_t c ! st_u s + C"
    by linarith
  then show ?thesis
    by (simp add: wait_result_def push_def store_def wait_succ_def off_def slot_def)
qed

lemma body_skips:
  assumes sh: "shape n c" and u: "st_u s \<le> n" and m0: "0 \<le> min_t c ! st_u s"
    and mt: "min_t c ! st_u s \<le> total_time s" and t: "total_time s + 1 < 2147483648"
    and st: "C \<le> total_time s - min_t c ! st_u s \<or>
             min_w c ! st_u s ! nat (total_time s - min_t c ! st_u s) < wait_time s"
  shows "body G n' s c = Some c"
proof -
  let ?mt = "min_t c ! st_u s"
  have rd: "rd (min_t c) (st_u s) = Some ?mt" using sh u by (simp add: rd_def shape_def)
  have dt: "to_int32 (total_time s - ?mt) = total_time s - ?mt"
    using m0 mt t by (simp add: to_int32_id)
  show ?thesis
  proof (cases "?mt = INF_LL \<or> total_time s > ?mt + C \<or> C \<le> total_time s - ?mt")
    case True
    then show ?thesis using rd dt by (auto simp: body_def Let_def)
  next
    case False
    then have lt: "total_time s - ?mt < C" by simp
    then have "nat (total_time s - ?mt) < length (min_w c ! st_u s)" "st_u s < length (min_w c)"
      using sh u mt by (simp_all add: shape_def)
    then have "rd_at (min_w c) (st_u s) (total_time s - ?mt)
        = Some (min_w c ! st_u s ! nat (total_time s - ?mt))"
      using mt by (simp add: rd_at_def)
    then show ?thesis using False rd dt st by (simp add: body_def Let_def)
  qed
qed

subsection \<open>Three small inputs, iteration by iteration\<close>

text \<open>
  The input \<open>n = 1\<close> without edges; \<open>n = 2\<close> with the edge \<open>(1, 2)\<close>; \<open>n = 2\<close> with the
  loop \<open>(1, 1)\<close>.  The configurations below are what the iterations leave, the queue
  in the order of the pushes.
\<close>

lemma C_small: "Suc 0 < nat C" "2 < nat C" "0 < nat C" "1 < C" "2 < C" "1 \<le> C"
  by (simp_all add: C_def)

lemma read_graph_lone:
  "read_graph 1 [] = Some \<lparr>adj = [[], []], deg = [0, 0]\<rparr>"
  by (simp add: read_graph_def adj_input_order_def build_graph_def to_int32_def)

lemma wf_lone: "well_formed 1 []"
  by (simp add: well_formed_def C_def)

definition lone_after_seed :: config where
  "lone_after_seed =
     \<lparr> min_t = [INF_LL, 0],
       min_w = [replicate (nat C) INF_LL, (replicate (nat C) INF_LL)[0 := 0, 1 := 1]],
       pq = [\<lparr>total_time = 1, wait_time = 1, st_u = 1\<rparr>],
       ans = (0, 0) \<rparr>"

lemma init_config_1:
  "init_config (Suc 0) =
     \<lparr> min_t = [INF_LL, 0],
       min_w = [replicate (nat C) INF_LL, (replicate (nat C) INF_LL)[0 := 0]],
       pq = [seed], ans = (INF_LL, INF_LL) \<rparr>"
  by (simp add: init_config_def)

lemma lone_first_pop:
  "body_result [] 1 seed (pop seed (init_config 1)) = lone_after_seed"
  using C_small
  by (simp add: init_config_1 lone_after_seed_def body_result_def expand_def record_answer_def
      next_node_def edge_at_def incident_def wait_result_fields pop_def seed_def slot_def off_def
      INF_LL_def Let_def)

lemma graph_lone: "graph_ok [] 1 \<lparr>adj = [[], []], deg = [0, 0]\<rparr>"
  by (rule read_graph_graph_ok[OF wf_lone read_graph_lone])

lemma top_single: "is_top s [s]"
  by (simp add: is_top_def state_gt_def)

lemma lone_runs: "runs 1 [] lone_after_seed"
proof -
  have "is_top seed (pq (init_config 1))" by (simp add: init_config_def top_single)
  from runs_step[OF wf_lone runs_init[OF wf_lone] this] show ?thesis
    by (simp only: lone_first_pop)
qed

lemma read_graph_single:
  "read_graph 2 [(1, 2)] = Some \<lparr>adj = [[], [(2, 1)], [(1, 1)]], deg = [0, 1, 1]\<rparr>"
  by (simp add: read_graph_def adj_input_order_def push_back_at_def build_graph_def to_int32_def
      numeral_2_eq_2 numeral_3_eq_3)

lemma wf_pair: "well_formed 2 [(1, 2)]"
  by (simp add: well_formed_def C_def)

lemma graph_pair: "graph_ok [(1, 2)] 2 \<lparr>adj = [[], [(2, 1)], [(1, 1)]], deg = [0, 1, 1]\<rparr>"
  by (rule read_graph_graph_ok[OF wf_pair read_graph_single])

lemma init_config_2:
  "init_config 2 =
     \<lparr> min_t = [INF_LL, 0, INF_LL],
       min_w = [replicate (nat C) INF_LL, (replicate (nat C) INF_LL)[0 := 0],
                replicate (nat C) INF_LL],
       pq = [seed], ans = (INF_LL, INF_LL) \<rparr>"
  by (simp add: init_config_def numeral_3_eq_3)

definition pair_after_seed :: config where
  "pair_after_seed =
     \<lparr> min_t = [INF_LL, 0, 1],
       min_w = [replicate (nat C) INF_LL, (replicate (nat C) INF_LL)[0 := 0, 1 := 1],
                (replicate (nat C) INF_LL)[0 := 0]],
       pq = [\<lparr>total_time = 1, wait_time = 1, st_u = 1\<rparr>,
             \<lparr>total_time = 1, wait_time = 0, st_u = 2\<rparr>],
       ans = (INF_LL, INF_LL) \<rparr>"

definition pair_after_target :: config where
  "pair_after_target =
     \<lparr> min_t = [INF_LL, 0, 1],
       min_w = [replicate (nat C) INF_LL, (replicate (nat C) INF_LL)[0 := 0, 1 := 1, 2 := 0],
                (replicate (nat C) INF_LL)[0 := 0, 1 := 1]],
       pq = [\<lparr>total_time = 1, wait_time = 1, st_u = 1\<rparr>,
             \<lparr>total_time = 2, wait_time = 1, st_u = 2\<rparr>,
             \<lparr>total_time = 2, wait_time = 0, st_u = 1\<rparr>],
       ans = (1, 0) \<rparr>"

lemma incident_pair: "incident [(Suc 0, 2)] (Suc 0) = [2]" "incident [(Suc 0, 2)] 2 = [Suc 0]"
  by (simp_all add: incident_def)

lemma pair_first_pop:
  "body_result [(1, 2)] 2 seed (pop seed (init_config 2)) = pair_after_seed"
  using C_small
  by (simp add: init_config_2 pair_after_seed_def body_result_def expand_def record_answer_def
      next_node_def edge_at_def incident_pair wait_result_fields move_result_fields pop_def
      seed_def slot_def off_def INF_LL_def Let_def)

lemma pair_second_pop:
  "body_result [(1, 2)] 2 \<lparr>total_time = 1, wait_time = 0, st_u = 2\<rparr>
     (pop \<lparr>total_time = 1, wait_time = 0, st_u = 2\<rparr> pair_after_seed) = pair_after_target"
  using C_small
  by (simp add: pair_after_target_def pair_after_seed_def body_result_def expand_def
      record_answer_def next_node_def edge_at_def incident_pair wait_result_fields
      move_result_fields pop_def slot_def off_def INF_LL_def Let_def)

lemma pair_third_pop:
  "body_result [(1, 2)] 2 \<lparr>total_time = 1, wait_time = 1, st_u = 1\<rparr>
     (pop \<lparr>total_time = 1, wait_time = 1, st_u = 1\<rparr> pair_after_target)
   = pop \<lparr>total_time = 1, wait_time = 1, st_u = 1\<rparr> pair_after_target"
  using C_small
  by (simp add: pair_after_target_def body_result_def expand_def
      record_answer_def next_node_def edge_at_def incident_pair wait_result_fields
      move_result_fields pop_def slot_def off_def INF_LL_def Let_def)

lemma pair_runs: "runs 2 [(1, 2)] pair_after_seed" "runs 2 [(1, 2)] pair_after_target"
proof -
  have "is_top seed (pq (init_config 2))" by (simp add: init_config_def top_single)
  from runs_step[OF wf_pair runs_init[OF wf_pair] this]
  show 1: "runs 2 [(1, 2)] pair_after_seed" by (simp only: pair_first_pop)
  have "is_top \<lparr>total_time = 1, wait_time = 0, st_u = 2\<rparr> (pq pair_after_seed)"
    by (simp add: pair_after_seed_def is_top_def state_gt_def)
  from runs_step[OF wf_pair 1 this]
  show "runs 2 [(1, 2)] pair_after_target" by (simp only: pair_second_pop)
qed

lemma read_graph_loop:
  "read_graph 2 [(1, 1)] = Some \<lparr>adj = [[], [(1, 1), (1, 2)], []], deg = [0, 2, 0]\<rparr>"
  by (simp add: read_graph_def adj_input_order_def push_back_at_def build_graph_def to_int32_def
      numeral_2_eq_2 numeral_3_eq_3)

definition loop_after_wait :: config where
  "loop_after_wait =
     \<lparr> min_t = [INF_LL, 0, INF_LL],
       min_w = [replicate (nat C) INF_LL, (replicate (nat C) INF_LL)[0 := 0, 1 := 1],
                replicate (nat C) INF_LL],
       pq = [\<lparr>total_time = 1, wait_time = 1, st_u = 1\<rparr>],
       ans = (INF_LL, INF_LL) \<rparr>"

definition loop_after_seed :: config where
  "loop_after_seed =
     \<lparr> min_t = [INF_LL, 0, INF_LL],
       min_w = [replicate (nat C) INF_LL, (replicate (nat C) INF_LL)[0 := 0, 1 := 0],
                replicate (nat C) INF_LL],
       pq = [\<lparr>total_time = 1, wait_time = 1, st_u = 1\<rparr>,
             \<lparr>total_time = 1, wait_time = 0, st_u = 1\<rparr>],
       ans = (INF_LL, INF_LL) \<rparr>"

lemma incident_loop: "incident [(Suc 0, Suc 0)] (Suc 0) = [Suc 0, Suc 0]"
  by (simp add: incident_def)

lemma loop_first_pop:
  "body_result [(1, 1)] 2 seed (pop seed (init_config 2)) = loop_after_seed"
  using C_small
  by (simp add: init_config_2 loop_after_seed_def body_result_def expand_def record_answer_def
      next_node_def edge_at_def incident_loop wait_result_fields move_result_fields pop_def
      seed_def slot_def off_def INF_LL_def Let_def)

definition loop_after_second :: config where
  "loop_after_second =
     \<lparr> min_t = [INF_LL, 0, INF_LL],
       min_w = [replicate (nat C) INF_LL, (replicate (nat C) INF_LL)[0 := 0, 1 := 0, 2 := 0],
                replicate (nat C) INF_LL],
       pq = [\<lparr>total_time = 1, wait_time = 1, st_u = 1\<rparr>,
             \<lparr>total_time = 2, wait_time = 1, st_u = 1\<rparr>,
             \<lparr>total_time = 2, wait_time = 0, st_u = 1\<rparr>],
       ans = (INF_LL, INF_LL) \<rparr>"

lemma loop_second_pop:
  "body_result [(1, 1)] 2 \<lparr>total_time = 1, wait_time = 0, st_u = 1\<rparr>
     (pop \<lparr>total_time = 1, wait_time = 0, st_u = 1\<rparr> loop_after_seed) = loop_after_second"
  using C_small
  by (simp add: loop_after_seed_def loop_after_second_def body_result_def expand_def
      record_answer_def next_node_def edge_at_def incident_loop wait_result_fields
      move_result_fields pop_def slot_def off_def INF_LL_def Let_def)

lemma wf_loop: "well_formed 2 [(1, 1)]"
  by (simp add: well_formed_def C_def)

lemma loop_runs: "runs 2 [(1, 1)] loop_after_seed" "runs 2 [(1, 1)] loop_after_second"
proof -
  have "is_top seed (pq (init_config 2))" by (simp add: init_config_def top_single)
  from runs_step[OF wf_loop runs_init[OF wf_loop] this]
  show 1: "runs 2 [(1, 1)] loop_after_seed" by (simp only: loop_first_pop)
  have "is_top \<lparr>total_time = 1, wait_time = 0, st_u = 1\<rparr> (pq loop_after_seed)"
    by (simp add: loop_after_seed_def is_top_def state_gt_def)
  from runs_step[OF wf_loop 1 this]
  show "runs 2 [(1, 1)] loop_after_second" by (simp only: loop_second_pop)
qed

lemma shape_3:
  "length r1 = nat C \<Longrightarrow> length r2 = nat C \<Longrightarrow> length r0 = nat C \<Longrightarrow>
   shape 2 \<lparr>min_t = [a, b, d], min_w = [r0, r1, r2], pq = q, ans = p\<rparr>"
proof -
  assume l: "length r1 = nat C" "length r2 = nat C" "length r0 = nat C"
  have "length ([r0, r1, r2] ! v) = nat C" if "v \<le> 2" for v
  proof -
    from that have "v = 0 \<or> v = 1 \<or> v = 2" by linarith
    then show ?thesis using l by auto
  qed
  then show ?thesis by (simp add: shape_def)
qed

subsection \<open>The move step, the acceptance test and the early exit\<close>

text \<open>
  Claim C3.  For a state \<open>s\<close> at a node \<open>u\<close> in \<open>1..n\<close> of a well-formed input, with a
  time \<open>t\<close> such that \<open>0 \<le> t\<close> and \<open>t + 1 < 2^31\<close> (so are the times of the search, see
  \<open>reach_bounds\<close>), and a configuration \<open>c\<close> whose tables have the program's sizes and
  hold no negative arrival time: \<open>deg[u]\<close> is the length of the incident-edge list of
  \<open>u\<close> in input order.  When it is positive, the edge selection returns the node \<open>v\<close> at
  position \<open>t mod deg[u]\<close> of that list, a node of the graph, and the move step
  generates the one successor \<open>(v, t + 1, w)\<close> and no other: the queue after the step
  is the queue before it, with that state appended exactly when the acceptance test of
  lines 103-119 passes, and unchanged otherwise.  When \<open>deg[u]\<close> is zero no node is
  selected and the move step leaves the whole configuration, the queue included, as it
  is.
\<close>

theorem move_selects_edge:
  "well_formed n edges \<Longrightarrow> read_graph n edges = Some G \<Longrightarrow>
   1 \<le> st_u s \<Longrightarrow> st_u s \<le> n \<Longrightarrow> 0 \<le> total_time s \<Longrightarrow> total_time s + 1 < 2147483648 \<Longrightarrow>
   shape n c \<Longrightarrow> (\<forall>x \<le> n. 0 \<le> min_t c ! x) \<Longrightarrow>
   v = incident edges (st_u s) ! nat (total_time s mod int (length (incident edges (st_u s)))) \<Longrightarrow>
     deg G ! st_u s = int (length (incident edges (st_u s))) \<and>
     (0 < deg G ! st_u s \<longrightarrow>
        select_edge G (st_u s) (total_time s) = Some (Some v) \<and> 1 \<le> v \<and> v \<le> n \<and>
        relax_move G s c = accept_move s v c \<and>
        (\<exists>c'. relax_move G s c = Some c' \<and>
           (pq c' = pq c \<or>
            pq c' = pq c @ [\<lparr>total_time = total_time s + 1, wait_time = wait_time s, st_u = v\<rparr>]) \<and>
           (pq c' = pq c @ [\<lparr>total_time = total_time s + 1, wait_time = wait_time s, st_u = v\<rparr>]
              \<longleftrightarrow> total_time s + 1 < min_t c ! v \<or>
                  total_time s + 1 - min_t c ! v < C \<and>
                  wait_time s < min_w c ! v ! nat (total_time s + 1 - min_t c ! v)))) \<and>
     (deg G ! st_u s = 0 \<longrightarrow>
        select_edge G (st_u s) (total_time s) = Some None \<and> relax_move G s c = Some c)"
proof -
  assume wf: "well_formed n edges" and r: "read_graph n edges = Some G"
    and x: "1 \<le> st_u s" "st_u s \<le> n" and t: "0 \<le> total_time s" "total_time s + 1 < 2147483648"
    and sh: "shape n c" and m: "\<forall>x \<le> n. 0 \<le> min_t c ! x"
    and v: "v = incident edges (st_u s) ! nat (total_time s mod int (length (incident edges (st_u s))))"
  have G: "graph_ok edges n G" by (rule read_graph_graph_ok[OF wf r])
  have d: "deg G ! st_u s = int (length (incident edges (st_u s)))"
    using G x by (simp add: graph_ok_def)
  have sel: "select_edge G (st_u s) (total_time s)
      = Some (if incident edges (st_u s) = [] then None else Some v)"
    using select_edge_ok[OF wf G x t(1)] v by simp
  show ?thesis
  proof (cases "incident edges (st_u s) = []")
    case True
    then show ?thesis using sel d by (simp add: relax_move_def)
  next
    case False
    then have nn: "next_node edges s = Some v" by (simp add: next_node_def edge_at_def v)
    have vr: "1 \<le> v" "v \<le> n" using next_node_range[OF wf nn] by simp_all
    have mv: "0 \<le> min_t c ! v" using m vr by simp
    have rm: "relax_move G s c = accept_move s v c"
      using sel False by (simp add: relax_move_def)
    have a: "relax_move G s c = Some (move_result s v c)"
      unfolding rm by (rule accept_move_eff[OF sh vr(2) t mv])
    have p: "pq (move_result s v c)
       = (if total_time s + 1 < min_t c ! v \<or>
                  total_time s + 1 - min_t c ! v < C \<and>
                  wait_time s < min_w c ! v ! nat (total_time s + 1 - min_t c ! v)
          then pq c @ [\<lparr>total_time = total_time s + 1, wait_time = wait_time s, st_u = v\<rparr>]
          else pq c)"
      by (simp add: move_result_fields)
    show ?thesis using False sel d vr a p rm[symmetric] by simp
  qed
qed

theorem move_selects_edge_witness:
  "well_formed 2 [(1, 2)] \<and>
   read_graph 2 [(1, 2)] = Some \<lparr>adj = [[], [(2, 1)], [(1, 1)]], deg = [0, 1, 1]\<rparr> \<and>
   select_edge \<lparr>adj = [[], [(2, 1)], [(1, 1)]], deg = [0, 1, 1]\<rparr> 1 0 = Some (Some 2) \<and>
   (\<exists>c'. relax_move \<lparr>adj = [[], [(2, 1)], [(1, 1)]], deg = [0, 1, 1]\<rparr> seed
            (pop seed (init_config 2)) = Some c' \<and>
         pq c' = [\<lparr>total_time = 1, wait_time = 0, st_u = 2\<rparr>]) \<and>
   well_formed 1 [] \<and> read_graph 1 [] = Some \<lparr>adj = [[], []], deg = [0, 0]\<rparr> \<and>
   select_edge \<lparr>adj = [[], []], deg = [0, 0]\<rparr> 1 0 = Some None \<and>
   relax_move \<lparr>adj = [[], []], deg = [0, 0]\<rparr> seed (pop seed (init_config 1))
     = Some (pop seed (init_config 1))"
proof -
  let ?c2 = "pop seed (init_config 2)" and ?c1 = "pop seed (init_config 1)"
  have sh2: "shape 2 ?c2" using init_config_tables(3)[of 2] by (simp add: shape_def)
  have sh1: "shape 1 ?c1" using init_config_tables(3)[of 1] by (simp add: shape_def)
  have m2: "\<forall>x \<le> 2. 0 \<le> min_t ?c2 ! x" by (simp add: init_config_tables(1) INF_LL_def)
  have m1: "\<forall>x \<le> 1. 0 \<le> min_t ?c1 ! x" by (simp add: init_config_tables(1) INF_LL_def)
  have s: "1 \<le> st_u seed" "st_u seed \<le> 2" "st_u seed \<le> 1" "0 \<le> total_time seed"
    "total_time seed + 1 < 2147483648"
    by (simp_all add: seed_def)
  have v: "2 = incident [(1, 2)] (st_u seed)
                 ! nat (total_time seed mod int (length (incident [(1, 2)] (st_u seed))))"
    by (simp add: seed_def incident_pair)
  have p: "pq ?c2 = []" "min_t ?c2 ! 2 = INF_LL"
    by (simp_all add: init_config_2)
  have a: "deg \<lparr>adj = [[], [(2, 1)], [(1, 1)]], deg = [0, 1, 1]\<rparr> ! st_u seed = 1"
    "deg \<lparr>adj = [[], []], deg = [0, 0]\<rparr> ! st_u seed = 0"
    by (simp_all add: seed_def)
  let ?H = "\<lparr>adj = [[], [(2, 1)], [(1, 1)]], deg = [0, 1, 1]\<rparr>"
  let ?m = "\<lparr>total_time = total_time seed + 1, wait_time = wait_time seed, st_u = 2\<rparr>"
  have pos: "0 < deg ?H ! st_u seed" unfolding a(1) by simp
  have acc: "total_time seed + 1 < min_t ?c2 ! 2" unfolding p(2) by (simp add: seed_def INF_LL_def)
  from move_selects_edge[OF wf_pair read_graph_single s(1,2,4,5) sh2 m2 v] pos
  obtain c' where c': "select_edge ?H (st_u seed) (total_time seed) = Some (Some 2)"
    "relax_move ?H seed ?c2 = Some c'"
    "pq c' = pq ?c2 @ [?m] \<longleftrightarrow>
       total_time seed + 1 < min_t ?c2 ! 2 \<or>
       total_time seed + 1 - min_t ?c2 ! 2 < C \<and>
       wait_time seed < min_w ?c2 ! 2 ! nat (total_time seed + 1 - min_t ?c2 ! 2)"
    by blast
  from c'(3) acc have "pq c' = pq ?c2 @ [?m]" by blast
  then have "pq c' = [\<lparr>total_time = 1, wait_time = 0, st_u = 2\<rparr>]"
    unfolding p(1) by (simp add: seed_def)
  with c'(1,2)
  have 1: "select_edge ?H 1 0 = Some (Some 2) \<and>
   (\<exists>c'. relax_move ?H seed ?c2 = Some c' \<and>
         pq c' = [\<lparr>total_time = 1, wait_time = 0, st_u = 2\<rparr>])"
    by (auto simp: seed_def)
  from move_selects_edge[OF wf_lone read_graph_lone s(1,3,4,5) sh1 m1 refl]
  have 2: "select_edge \<lparr>adj = [[], []], deg = [0, 0]\<rparr> 1 0 = Some None \<and>
     relax_move \<lparr>adj = [[], []], deg = [0, 0]\<rparr> seed ?c1 = Some ?c1"
    unfolding a by (simp add: seed_def)
  show ?thesis using 1 2 wf_pair wf_lone read_graph_single read_graph_lone by blast
qed

text \<open>
  In an execution the reset branch of the move step is taken only at a node that has
  never been reached: its \<open>min_t\<close> is still the sentinel and its whole row of \<open>min_w\<close>
  still holds the sentinel, so a row never holds entries of an older \<open>min_t\<close>.
\<close>

lemma reset_only_when_unset:
  assumes wf: "well_formed n E" and r: "runs n E c" and top: "is_top s (pq c)"
    and v: "v \<le> n" and lt: "total_time s + 1 < min_t c ! v"
  shows "min_t c ! v = INF_LL \<and> (\<forall>d < nat C. slot c v d = INF_LL)"
proof -
  have i: "sinv n c" by (rule runs_inv[OF wf r])
  have "s \<in> set (pq c)" using top by (simp add: is_top_def)
  then have "early n c (total_time s)" using i by (simp add: sinv_def)
  then have "min_t c ! v = INF_LL" using v lt unfolding early_def by force
  moreover have "tables_ok n c" using i by (simp add: sinv_def)
  ultimately show ?thesis using v unfolding tables_ok_def by blast
qed

text \<open>
  Claim C4.  The acceptance test of a successor, on any configuration \<open>c\<close> whose tables
  have the program's sizes (\<open>shape\<close>) and for nodes and times in range; \<open>s\<close> is the
  popped state \<open>(u, t, w)\<close>, the results are written field by field.
  \<^item> The move successor \<open>(v, t + 1, w)\<close> with \<open>t + 1 < min_t[v]\<close>: \<open>min_t[v]\<close> is reset
    to \<open>t + 1\<close>, \<open>min_w[v][0]\<close> is set to \<open>w\<close>, the state is appended to the queue, and
    every other entry of the row \<open>min_w[v]\<close> keeps its old value (nothing is purged).
  \<^item> The move successor otherwise: it is appended to the queue, and its slot set to
    \<open>w\<close>, exactly when its offset \<open>t + 1 - min_t[v]\<close> is below \<open>C\<close> and \<open>w\<close> is less
    than the slot's value; else the configuration is unchanged.
  \<^item> The wait successor \<open>(u, t + 1, w + 1)\<close>: the same test at node \<open>u\<close>.
  \<^item> No branch removes a state from the queue or resets a slot.  A queued state is
    discarded only when it is popped: the loop body on a popped state whose offset is
    not below \<open>C\<close>, or whose wait is greater than its slot's value, returns the
    configuration as it is (lines 64-70).
\<close>

theorem successor_acceptance:
  "shape n c \<Longrightarrow> v \<le> n \<Longrightarrow> st_u s \<le> n \<Longrightarrow> 0 \<le> min_t c ! v \<Longrightarrow> 0 \<le> min_t c ! st_u s \<Longrightarrow>
   min_t c ! st_u s \<le> total_time s \<Longrightarrow> total_time s + 1 < 2147483648 \<Longrightarrow>
     (total_time s + 1 < min_t c ! v \<longrightarrow>
        accept_move s v c
          = Some (c\<lparr>min_t := (min_t c)[v := total_time s + 1],
                    min_w := (min_w c)[v := (min_w c ! v)[0 := wait_time s]],
                    pq := pq c @ [\<lparr>total_time = total_time s + 1, wait_time = wait_time s,
                                    st_u = v\<rparr>]\<rparr>) \<and>
        (\<forall>d. 0 < d \<longrightarrow>
           (min_w c)[v := (min_w c ! v)[0 := wait_time s]] ! v ! d = min_w c ! v ! d)) \<and>
     (\<not> total_time s + 1 < min_t c ! v \<longrightarrow>
        accept_move s v c
          = Some (if total_time s + 1 - min_t c ! v < C \<and>
                     wait_time s < min_w c ! v ! nat (total_time s + 1 - min_t c ! v)
                  then c\<lparr>min_w := (min_w c)[v := (min_w c ! v)
                                      [nat (total_time s + 1 - min_t c ! v) := wait_time s]],
                         pq := pq c @ [\<lparr>total_time = total_time s + 1, wait_time = wait_time s,
                                         st_u = v\<rparr>]\<rparr>
                  else c)) \<and>
     relax_wait s (total_time s - min_t c ! st_u s) c
       = Some (if total_time s + 1 - min_t c ! st_u s < C \<and>
                  wait_time s + 1 < min_w c ! st_u s ! nat (total_time s + 1 - min_t c ! st_u s)
               then c\<lparr>min_w := (min_w c)[st_u s := (min_w c ! st_u s)
                                   [nat (total_time s + 1 - min_t c ! st_u s) := wait_time s + 1]],
                      pq := pq c @ [\<lparr>total_time = total_time s + 1, wait_time = wait_time s + 1,
                                      st_u = st_u s\<rparr>]\<rparr>
               else c) \<and>
     (C \<le> total_time s - min_t c ! st_u s \<or>
      min_w c ! st_u s ! nat (total_time s - min_t c ! st_u s) < wait_time s \<longrightarrow>
        body G m s c = Some c)"
proof -
  assume sh: "shape n c" and v: "v \<le> n" and u: "st_u s \<le> n" and mv: "0 \<le> min_t c ! v"
    and m0: "0 \<le> min_t c ! st_u s"
    and mu: "min_t c ! st_u s \<le> total_time s" and t: "total_time s + 1 < 2147483648"
  have t0: "0 \<le> total_time s" using m0 mu by linarith
  have a: "accept_move s v c = Some (move_result s v c)"
    by (rule accept_move_eff[OF sh v t0 t mv])
  have w: "relax_wait s (total_time s - min_t c ! st_u s) c = Some (wait_result s c)"
    by (rule relax_wait_eff[OF sh u mu refl])
  have keep: "(min_w c)[v := (min_w c ! v)[0 := wait_time s]] ! v ! d = min_w c ! v ! d"
    if "0 < d" for d
    using that by (cases "v < length (min_w c)") (simp_all add: list_update_beyond)
  have b: "body G m s c = Some c"
    if "C \<le> total_time s - min_t c ! st_u s \<or>
      min_w c ! st_u s ! nat (total_time s - min_t c ! st_u s) < wait_time s"
    by (rule body_skips[OF sh u m0 mu t that])
  have 1: "total_time s + 1 < min_t c ! v \<longrightarrow>
        accept_move s v c
          = Some (c\<lparr>min_t := (min_t c)[v := total_time s + 1],
                    min_w := (min_w c)[v := (min_w c ! v)[0 := wait_time s]],
                    pq := pq c @ [\<lparr>total_time = total_time s + 1, wait_time = wait_time s,
                                    st_u = v\<rparr>]\<rparr>) \<and>
        (\<forall>d. 0 < d \<longrightarrow>
           (min_w c)[v := (min_w c ! v)[0 := wait_time s]] ! v ! d = min_w c ! v ! d)"
    using keep unfolding a move_result_fields by simp
  have 2: "\<not> total_time s + 1 < min_t c ! v \<longrightarrow>
        accept_move s v c
          = Some (if total_time s + 1 - min_t c ! v < C \<and>
                     wait_time s < min_w c ! v ! nat (total_time s + 1 - min_t c ! v)
                  then c\<lparr>min_w := (min_w c)[v := (min_w c ! v)
                                      [nat (total_time s + 1 - min_t c ! v) := wait_time s]],
                         pq := pq c @ [\<lparr>total_time = total_time s + 1, wait_time = wait_time s,
                                         st_u = v\<rparr>]\<rparr>
                  else c)"
    unfolding a move_result_fields by simp
  show ?thesis
    using 1 2 b unfolding w wait_result_fields by blast
qed

theorem successor_acceptance_witness:
  "accept_move seed 2 (pop seed (init_config 2))
     = Some \<lparr> min_t = [INF_LL, 0, 1],
              min_w = [replicate (nat C) INF_LL, (replicate (nat C) INF_LL)[0 := 0],
                       (replicate (nat C) INF_LL)[0 := 0]],
              pq = [\<lparr>total_time = 1, wait_time = 0, st_u = 2\<rparr>],
              ans = (INF_LL, INF_LL) \<rparr> \<and>
   relax_wait seed 0 (pop seed (init_config 2)) = Some loop_after_wait \<and>
   accept_move seed 1 loop_after_wait = Some loop_after_seed \<and>
   accept_move seed 1 loop_after_seed = Some loop_after_seed \<and>
   relax_wait seed 0 loop_after_seed = Some loop_after_seed \<and>
   runs 2 [(1, 1)] loop_after_second \<and>
   is_top \<lparr>total_time = 1, wait_time = 1, st_u = 1\<rparr> (pq loop_after_second) \<and>
   min_w loop_after_second ! 1 ! 1 < wait_time \<lparr>total_time = 1, wait_time = 1, st_u = 1\<rparr> \<and>
   body \<lparr>adj = [[], [(1, 1), (1, 2)], []], deg = [0, 2, 0]\<rparr> 2
        \<lparr>total_time = 1, wait_time = 1, st_u = 1\<rparr>
        (pop \<lparr>total_time = 1, wait_time = 1, st_u = 1\<rparr> loop_after_second)
     = Some (pop \<lparr>total_time = 1, wait_time = 1, st_u = 1\<rparr> loop_after_second)"
proof -
  let ?c0 = "pop seed (init_config 2)"
  let ?st = "\<lparr>total_time = 1, wait_time = 1, st_u = 1\<rparr>"
  have c0: "?c0 = \<lparr> min_t = [INF_LL, 0, INF_LL],
       min_w = [replicate (nat C) INF_LL, (replicate (nat C) INF_LL)[0 := 0],
                replicate (nat C) INF_LL],
       pq = [], ans = (INF_LL, INF_LL) \<rparr>"
    by (simp add: init_config_2 pop_def)
  have sh0: "shape 2 ?c0" unfolding c0 by (rule shape_3) simp_all
  have shw: "shape 2 loop_after_wait" unfolding loop_after_wait_def by (rule shape_3) simp_all
  have shs: "shape 2 loop_after_seed" unfolding loop_after_seed_def by (rule shape_3) simp_all
  from successor_acceptance[OF sh0, of 2 seed]
  have 1: "accept_move seed 2 ?c0
     = Some \<lparr> min_t = [INF_LL, 0, 1],
              min_w = [replicate (nat C) INF_LL, (replicate (nat C) INF_LL)[0 := 0],
                       (replicate (nat C) INF_LL)[0 := 0]],
              pq = [\<lparr>total_time = 1, wait_time = 0, st_u = 2\<rparr>],
              ans = (INF_LL, INF_LL) \<rparr> \<and>
   relax_wait seed 0 ?c0 = Some loop_after_wait"
    using C_small unfolding c0 loop_after_wait_def by (simp add: seed_def INF_LL_def)
  from successor_acceptance[OF shw, of 1 seed]
  have 2: "accept_move seed 1 loop_after_wait = Some loop_after_seed"
    using C_small unfolding loop_after_wait_def loop_after_seed_def
    by (simp add: seed_def INF_LL_def)
  from successor_acceptance[OF shs, of 1 seed]
  have 3: "accept_move seed 1 loop_after_seed = Some loop_after_seed \<and>
     relax_wait seed 0 loop_after_seed = Some loop_after_seed"
    using C_small unfolding loop_after_seed_def
    by (simp add: seed_def INF_LL_def)
  let ?c2 = "pop ?st loop_after_second"
  have sh2: "shape 2 ?c2"
    unfolding loop_after_second_def pop_def by simp (rule shape_3, simp_all)
  have top: "is_top ?st (pq loop_after_second)"
    by (simp add: loop_after_second_def is_top_def state_gt_def)
  have 4: "min_w loop_after_second ! 1 ! 1 < wait_time ?st"
    using C_small by (simp add: loop_after_second_def)
  have pr: "(1::nat) \<le> 2" "st_u ?st \<le> 2" "0 \<le> min_t ?c2 ! 1" "0 \<le> min_t ?c2 ! st_u ?st"
    "min_t ?c2 ! st_u ?st \<le> total_time ?st" "total_time ?st + 1 < 2147483648"
    by (simp_all add: loop_after_second_def)
  have stale: "C \<le> total_time ?st - min_t ?c2 ! st_u ?st \<or>
      min_w ?c2 ! st_u ?st ! nat (total_time ?st - min_t ?c2 ! st_u ?st) < wait_time ?st"
    using C_small by (simp add: loop_after_second_def)
  from successor_acceptance[OF sh2 pr,
      of "\<lparr>adj = [[], [(1, 1), (1, 2)], []], deg = [0, 2, 0]\<rparr>" 2] stale
  have 5: "body \<lparr>adj = [[], [(1, 1), (1, 2)], []], deg = [0, 2, 0]\<rparr> 2 ?st ?c2 = Some ?c2"
    by blast
  show ?thesis using 1 2 3 4 5 top loop_runs(2) by blast
qed

definition fresh :: "config \<Rightarrow> State \<Rightarrow> bool" where
  "fresh c s =
     (case rd (min_t c) (st_u s) of
        None \<Rightarrow> False
      | Some mt \<Rightarrow>
          \<not> (mt = INF_LL \<or> total_time s > mt + C) \<and> \<not> to_int32 (total_time s - mt) \<ge> C \<and>
          (case rd_at (min_w c) (st_u s) (to_int32 (total_time s - mt)) of
             None \<Rightarrow> False
           | Some mw \<Rightarrow> \<not> wait_time s > mw))"

definition lex_less :: "int \<times> int \<Rightarrow> int \<times> int \<Rightarrow> bool" where
  "lex_less p q = (fst p < fst q \<or> (fst p = fst q \<and> snd p < snd q))"

lemma body_ans:
  assumes "body G n s c = Some c'"
  shows "ans c' = ans c \<or> ans c' = ans (record_answer n s c)"
proof -
  have "ans c' = ans (record_answer n s c)"
    if "relax_wait s dt (record_answer n s c) = Some c2" "relax_move G s c2 = Some c'" for dt c2
    using relax_wait_pq[OF that(1)] relax_move_pq[OF that(2)] by simp
  then show ?thesis
    using assms unfolding body_def Let_def
    by (auto split: option.splits if_splits)
qed

lemma pair_fresh:
  "fresh (pop \<lparr>total_time = 1, wait_time = 1, st_u = 1\<rparr> pair_after_target)
     \<lparr>total_time = 1, wait_time = 1, st_u = 1\<rparr>"
  using C_small
  by (simp add: fresh_def pair_after_target_def rd_def rd_at_def to_int32_def INF_LL_def pop_def)

text \<open>
  Claim C5.  The early exit, for the loop body on any configuration \<open>c\<close> (the queue
  already popped) and popped state \<open>s\<close>:
  \<^item> when the time of \<open>s\<close> is greater than the recorded answer's time, the iteration
    changes nothing: no successor is generated, no table entry and no answer written;
  \<^item> the answer changes only at a popped target state, to that state's pair, and only
    when the pair is lexicographically smaller; so the recorded answer never grows;
  \<^item> a state that passes the staleness tests of lines 64-70 (\<open>fresh\<close>) and whose time
    is at most the answer's time, equal included, is expanded: the iteration is the
    wait step followed by the move step.
\<close>

theorem early_exit:
  "body G n s c = Some c' \<Longrightarrow>
     (fst (ans c) < total_time s \<longrightarrow> c' = c) \<and>
     (ans c' \<noteq> ans c \<longrightarrow>
        st_u s = n \<and> ans c' = (total_time s, wait_time s) \<and>
        lex_less (total_time s, wait_time s) (ans c)) \<and>
     lex_le (ans c') (ans c) \<and>
     (fresh c s \<and> total_time s \<le> fst (ans c) \<longrightarrow>
        (\<exists>mt c2. rd (min_t c) (st_u s) = Some mt \<and>
           relax_wait s (to_int32 (total_time s - mt)) (record_answer n s c) = Some c2 \<and>
           relax_move G s c2 = Some c'))"
proof -
  assume b: "body G n s c = Some c'"
  have 1: "c' = c" if "fst (ans c) < total_time s"
  proof -
    have "record_answer n s c = c" using that by (simp add: record_answer_def)
    then show ?thesis using b that unfolding body_def Let_def
      by (auto split: option.splits if_splits)
  qed
  have 2: "st_u s = n \<and> ans c' = (total_time s, wait_time s) \<and>
        lex_less (total_time s, wait_time s) (ans c)" if "ans c' \<noteq> ans c"
  proof -
    from body_ans[OF b] that have "ans c' = ans (record_answer n s c)" by simp
    then show ?thesis using that
      by (cases "st_u s = n") (auto simp: record_answer_def lex_less_def split: if_splits)
  qed
  have 3: "lex_le (ans c') (ans c)"
  proof (cases "ans c' = ans c")
    case True
    then show ?thesis by (simp add: lex_le_def)
  next
    case False
    from 2[OF False] show ?thesis by (auto simp: lex_le_def lex_less_def)
  qed
  have 4: "\<exists>mt c2. rd (min_t c) (st_u s) = Some mt \<and>
           relax_wait s (to_int32 (total_time s - mt)) (record_answer n s c) = Some c2 \<and>
           relax_move G s c2 = Some c'" if f: "fresh c s" and le: "total_time s \<le> fst (ans c)"
  proof -
    have "\<not> total_time s > fst (ans (record_answer n s c))"
      using le by (auto simp: record_answer_def)
    then show ?thesis
      using b f unfolding body_def fresh_def Let_def
      by (auto split: option.splits if_splits)
  qed
  show ?thesis using 1 2 3 4 by blast
qed

theorem early_exit_witness:
  "body \<lparr>adj = [[], []], deg = [0, 0]\<rparr> 1 seed (pop seed (init_config 1)) = Some lone_after_seed \<and>
   ans (pop seed (init_config 1)) = (INF_LL, INF_LL) \<and> ans lone_after_seed = (0, 0) \<and>
   st_u seed = 1 \<and> lex_less (0, 0) (INF_LL, INF_LL) \<and>
   is_top \<lparr>total_time = 1, wait_time = 1, st_u = 1\<rparr> (pq lone_after_seed) \<and>
   fst (ans lone_after_seed) < 1 \<and>
   body \<lparr>adj = [[], []], deg = [0, 0]\<rparr> 1 \<lparr>total_time = 1, wait_time = 1, st_u = 1\<rparr>
     (pop \<lparr>total_time = 1, wait_time = 1, st_u = 1\<rparr> lone_after_seed)
     = Some (pop \<lparr>total_time = 1, wait_time = 1, st_u = 1\<rparr> lone_after_seed) \<and>
   runs 2 [(1, 2)] pair_after_target \<and>
   is_top \<lparr>total_time = 1, wait_time = 1, st_u = 1\<rparr> (pq pair_after_target) \<and>
   fst (ans pair_after_target) = 1 \<and>
   (\<exists>mt c2. rd (min_t pair_after_target) 1 = Some mt \<and>
      relax_wait \<lparr>total_time = 1, wait_time = 1, st_u = 1\<rparr> (to_int32 (1 - mt))
        (pop \<lparr>total_time = 1, wait_time = 1, st_u = 1\<rparr> pair_after_target) = Some c2 \<and>
      relax_move \<lparr>adj = [[], [(2, 1)], [(1, 1)]], deg = [0, 1, 1]\<rparr>
        \<lparr>total_time = 1, wait_time = 1, st_u = 1\<rparr> c2
        = Some (pop \<lparr>total_time = 1, wait_time = 1, st_u = 1\<rparr> pair_after_target))"
proof -
  let ?G = "\<lparr>adj = [[], []], deg = [0, 0]\<rparr>"
  let ?H = "\<lparr>adj = [[], [(2, 1)], [(1, 1)]], deg = [0, 1, 1]\<rparr>"
  let ?s = "\<lparr>total_time = 1, wait_time = 1, st_u = 1\<rparr>"
  have top0: "is_top seed (pq (init_config 1))" by (simp add: init_config_def top_single)
  have b1: "body ?G 1 seed (pop seed (init_config 1)) = Some lone_after_seed"
    using body_eff[OF wf_lone graph_lone inv_pop_mid[OF inv_init top0]]
    by (simp only: lone_first_pop)
  have a0: "ans (pop seed (init_config 1)) = (INF_LL, INF_LL)" by (simp add: init_config_def)
  have a1: "ans lone_after_seed = (0, 0)" by (simp add: lone_after_seed_def)
  have top1: "is_top ?s (pq lone_after_seed)" by (simp add: lone_after_seed_def top_single)
  have b2: "body ?G 1 ?s (pop ?s lone_after_seed)
      = Some (body_result [] 1 ?s (pop ?s lone_after_seed))"
    by (rule body_eff[OF wf_lone graph_lone inv_pop_mid[OF runs_inv[OF wf_lone lone_runs] top1]])
  have late: "fst (ans (pop ?s lone_after_seed)) < total_time ?s" by (simp add: a1)
  from early_exit[OF b1]
  have "ans lone_after_seed \<noteq> ans (pop seed (init_config 1)) \<longrightarrow>
      st_u seed = 1 \<and> lex_less (total_time seed, wait_time seed) (ans (pop seed (init_config 1)))"
    by blast
  then have r: "st_u seed = 1 \<and> lex_less (0, 0) (INF_LL, INF_LL)"
    unfolding a0 a1 by (simp add: INF_LL_def seed_def)
  from early_exit[OF b2] late
  have e: "body_result [] 1 ?s (pop ?s lone_after_seed) = pop ?s lone_after_seed" by blast
  have top2: "is_top ?s (pq pair_after_target)"
    by (simp add: pair_after_target_def is_top_def state_gt_def)
  have a2: "ans pair_after_target = (1, 0)" by (simp add: pair_after_target_def)
  have b3: "body ?H 2 ?s (pop ?s pair_after_target) = Some (pop ?s pair_after_target)"
    using body_eff[OF wf_pair graph_pair inv_pop_mid[OF runs_inv[OF wf_pair pair_runs(2)] top2]]
    by (simp only: pair_third_pop)
  have tie: "total_time ?s \<le> fst (ans (pop ?s pair_after_target))" by (simp add: a2)
  have ra: "record_answer 2 ?s (pop ?s pair_after_target) = pop ?s pair_after_target"
    by (simp add: record_answer_def)
  from early_exit[OF b3] pair_fresh tie
  have x: "\<exists>mt c2. rd (min_t (pop ?s pair_after_target)) (st_u ?s) = Some mt \<and>
      relax_wait ?s (to_int32 (total_time ?s - mt))
        (record_answer 2 ?s (pop ?s pair_after_target)) = Some c2 \<and>
      relax_move ?H ?s c2 = Some (pop ?s pair_after_target)"
    by blast
  have x': "\<exists>mt c2. rd (min_t pair_after_target) 1 = Some mt \<and>
      relax_wait ?s (to_int32 (1 - mt)) (pop ?s pair_after_target) = Some c2 \<and>
      relax_move ?H ?s c2 = Some (pop ?s pair_after_target)"
    using x unfolding ra by simp
  show ?thesis
    using b1 a0 a1 r top1 b2 e pair_runs(2) top2 a2 x' by simp
qed

section \<open>The search against the specification's walks\<close>

subsection \<open>Walks\<close>

lemma walk_append:
  "walk E (as @ bs) p = (case walk E as p of None \<Rightarrow> None | Some q \<Rightarrow> walk E bs q)"
  by (induction as arbitrary: p) (auto split: option.splits)

lemma walk_length:
  "walk E as (x0, t0, w0) = Some (x, t, w) \<Longrightarrow>
     t = t0 + int (length as) \<and> w0 \<le> w \<and> w - w0 \<le> int (length as) \<and> (as = [] \<longrightarrow> x = x0)"
proof (induction as arbitrary: x0 t0 w0)
  case Nil
  then show ?case by simp
next
  case (Cons a as)
  from Cons.prems obtain x1 t1 w1 where
    1: "walk_step E a (x0, t0, w0) = Some (x1, t1, w1)" and 2: "walk E as (x1, t1, w1) = Some (x, t, w)"
    by (auto split: option.splits)
  have "t1 = t0 + 1 \<and> w0 \<le> w1 \<and> w1 \<le> w0 + 1"
    using 1 by (cases a) (auto split: option.splits)
  then show ?case using Cons.IH[OF 2] by auto
qed

lemma arrives_start: "arrives E 1 0 0"
  unfolding arrives_def by (rule exI[of _ "[]"]) simp

lemma arrives_wait: "arrives E x t w \<Longrightarrow> arrives E x (t + 1) (w + 1)"
  unfolding arrives_def
proof (erule exE)
  fix as assume "walk E as (1, 0, 0) = Some (x, t, w)"
  then have "walk E (as @ [Wait]) (1, 0, 0) = Some (x, t + 1, w + 1)"
    by (simp add: walk_append)
  then show "\<exists>as. walk E as (1, 0, 0) = Some (x, t + 1, w + 1)" by blast
qed

lemma arrives_move: "arrives E x t w \<Longrightarrow> edge_at E x t = Some v \<Longrightarrow> arrives E v (t + 1) w"
  unfolding arrives_def
proof (erule exE)
  fix as assume "walk E as (1, 0, 0) = Some (x, t, w)" "edge_at E x t = Some v"
  then have "walk E (as @ [Move]) (1, 0, 0) = Some (v, t + 1, w)"
    by (simp add: walk_append)
  then show "\<exists>as. walk E as (1, 0, 0) = Some (v, t + 1, w)" by blast
qed

lemma arrives_bounds:
  assumes "arrives E x t w"
  shows "0 \<le> w" "w \<le> t" "t = 0 \<Longrightarrow> x = 1"
proof -
  from assms obtain as where as: "walk E as (1, 0, 0) = Some (x, t, w)" by (auto simp: arrives_def)
  from walk_length[OF as] show "0 \<le> w" "w \<le> t" "t = 0 \<Longrightarrow> x = 1" by auto
qed

subsection \<open>What an iteration adds to the queue and the tables\<close>

lemma wait_result_simps [simp]:
  "ans (wait_result s c) = ans c" "min_t (wait_result s c) = min_t c"
  by (simp_all add: wait_result_def)

lemma move_result_ans [simp]: "ans (move_result s v c) = ans c"
  by (simp add: move_result_def)

lemma pq_wait_result:
  "x \<in> set (pq (wait_result s c)) \<Longrightarrow> x \<in> set (pq c) \<or> x = wait_succ s"
  by (auto simp: wait_result_def split: if_splits)

lemma pq_move_result:
  "x \<in> set (pq (move_result s v c)) \<Longrightarrow> x \<in> set (pq c) \<or> x = move_succ s v"
  by (auto simp: move_result_def split: if_splits)

lemma pq_body_result:
  assumes "x \<in> set (pq (body_result E n s c))"
  shows "x \<in> set (pq c) \<or> x = wait_succ s \<or> (\<exists>v. next_node E s = Some v \<and> x = move_succ s v)"
proof (cases "next_node E s")
  case None
  then show ?thesis
    using assms pq_wait_result[of x s "record_answer n s c"]
    by (auto simp: body_result_def expand_def Let_def split: if_splits)
next
  case (Some v)
  then show ?thesis
    using assms pq_wait_result[of x s "record_answer n s c"]
      pq_move_result[of x s v "wait_result s (record_answer n s c)"]
    by (auto simp: body_result_def expand_def Let_def split: if_splits)
qed

lemma ans_body_result:
  "ans (body_result E n s c) = ans c \<or> ans (body_result E n s c) = ans (record_answer n s c)"
  by (auto simp: body_result_def expand_def Let_def split: option.splits)

lemma ans_record_answer:
  "ans (record_answer n s c) = ans c \<or>
   (st_u s = n \<and> ans (record_answer n s c) = (total_time s, wait_time s))"
  by (cases "st_u s = n") (simp_all add: record_answer_def)

subsection \<open>Soundness: every queued state and the answer come from a walk\<close>

definition sound :: "(nat \<times> nat) list \<Rightarrow> nat \<Rightarrow> config \<Rightarrow> bool" where
  "sound E n c =
     ((\<forall>s \<in> set (pq c). arrives E (st_u s) (total_time s) (wait_time s)) \<and>
      (ans c = (INF_LL, INF_LL) \<or> arrives E n (fst (ans c)) (snd (ans c))))"

lemma runs_sound:
  assumes wf: "well_formed n E" and r: "runs n E c"
  shows "sound E n c"
proof -
  have "sound E n c \<and> sinv n c"
    using wf r
  proof (induction rule: runs_induct)
    case init
    show ?case using arrives_start[of E] by (simp add: sound_def init_config_def seed_def)
  next
    case (step c s)
    let ?c' = "body_result E n s (pop s c)"
    have sin: "s \<in> set (pq c)" using step(4) by (simp add: is_top_def)
    then have as: "arrives E (st_u s) (total_time s) (wait_time s)"
      using step(3) by (simp add: sound_def)
    have "arrives E (st_u x) (total_time x) (wait_time x)" if "x \<in> set (pq ?c')" for x
    proof -
      from pq_body_result[OF that] consider
        "x \<in> set (remove1 s (pq c))" | "x = wait_succ s"
        | v where "next_node E s = Some v" "x = move_succ s v"
        by auto
      then show ?thesis
      proof cases
        case 1
        then have "x \<in> set (pq c)" using set_remove1_subset[of s "pq c"] by auto
        then show ?thesis using step(3) by (simp add: sound_def)
      next
        case 2
        then show ?thesis using arrives_wait[OF as] by (simp add: wait_succ_def)
      next
        case 3
        then show ?thesis using arrives_move[OF as] by (simp add: move_succ_def next_node_def)
      qed
    qed
    moreover have "ans ?c' = (INF_LL, INF_LL) \<or> arrives E n (fst (ans ?c')) (snd (ans ?c'))"
      using ans_body_result[of E n s "pop s c"] ans_record_answer[of n s "pop s c"] as step(3)
      by (auto simp: sound_def)
    ultimately show ?case by (simp add: sound_def)
  qed
  then show ?thesis by simp
qed

text \<open>
  Claim C2.  On a well-formed input on which no wait/move walk from node 1 is ever at
  node \<open>n\<close>, the search ends with an empty frontier and the program prints the sentinel
  \<open>(INF, INF)\<close>, \<open>INF = 10^18\<close>; under any tie-breaking of the queue the answer is the
  sentinel in every configuration an execution reaches.
\<close>

theorem unreachable_sentinel:
  "well_formed n edges \<Longrightarrow> (\<forall>T W. \<not> arrives edges n T W) \<Longrightarrow>
     solve n edges = Some (INF_LL, INF_LL) \<and>
     (\<exists>c. final n edges c) \<and>
     (\<forall>c. runs n edges c \<longrightarrow> ans c = (INF_LL, INF_LL)) \<and>
     INF_LL = 10 ^ 18"
proof -
  assume wf: "well_formed n edges" and un: "\<forall>T W. \<not> arrives edges n T W"
  have a: "ans c = (INF_LL, INF_LL)" if "runs n edges c" for c
    using runs_sound[OF wf that] un by (simp add: sound_def)
  from solve_final[OF wf] obtain c where c: "solve n edges = Some (ans c)" "final n edges c" by blast
  then have "solve n edges = Some (INF_LL, INF_LL)" using a by (simp add: final_def)
  then show ?thesis using a c(2) by (auto simp: INF_LL_def)
qed

lemma walk_no_edges: "walk [] as (1, t, w) = Some (x, T, W) \<Longrightarrow> x = 1"
proof (induction as arbitrary: t w)
  case Nil
  then show ?case by simp
next
  case (Cons a as)
  show ?case
  proof (cases a)
    case Wait
    then show ?thesis using Cons by simp
  next
    case Move
    then show ?thesis using Cons.prems by (simp add: edge_at_def)
  qed
qed

theorem unreachable_sentinel_witness:
  "well_formed 2 [] \<and> (\<forall>T W. \<not> arrives [] 2 T W) \<and> solve 2 [] = Some (INF_LL, INF_LL)"
proof -
  have wf: "well_formed 2 []" by (simp add: well_formed_def C_def)
  have un: "\<forall>T W. \<not> arrives [] 2 T W"
    using walk_no_edges by (fastforce simp: arrives_def)
  from unreachable_sentinel[OF wf un] show ?thesis using wf un by blast
qed

subsection \<open>Completeness: every slot is queued or has been expanded\<close>

text \<open>
  \<open>covered c v t w\<close>: node \<open>v\<close> has been reached no later than \<open>t\<close> and, if \<open>t\<close> is inside
  the window of \<open>v\<close>, the table holds a wait of at most \<open>w\<close> for \<open>(v, t)\<close>.
  \<open>pending c v d\<close>: the state that slot \<open>d\<close> of \<open>v\<close> stands for is in the queue.
  \<open>closed c v d\<close>: that state has been popped and expanded: it has been offered as an
  answer if \<open>v\<close> is the target, and unless its time is beyond the answer's, both of its
  successors are covered.
\<close>

definition covered :: "nat \<Rightarrow> config \<Rightarrow> nat \<Rightarrow> int \<Rightarrow> int \<Rightarrow> bool" where
  "covered n c v t w =
     (v \<le> n \<and> min_t c ! v \<noteq> INF_LL \<and> min_t c ! v \<le> t \<and>
      (t - min_t c ! v < C \<longrightarrow> slot c v (nat (t - min_t c ! v)) \<le> w))"

definition pending :: "config \<Rightarrow> nat \<Rightarrow> nat \<Rightarrow> bool" where
  "pending c v d =
     (\<lparr>total_time = min_t c ! v + int d, wait_time = slot c v d, st_u = v\<rparr> \<in> set (pq c))"

definition closed :: "(nat \<times> nat) list \<Rightarrow> nat \<Rightarrow> config \<Rightarrow> nat \<Rightarrow> nat \<Rightarrow> bool" where
  "closed E n c v d =
     ((v = n \<longrightarrow> lex_le (ans c) (min_t c ! v + int d, slot c v d)) \<and>
      (fst (ans c) < min_t c ! v + int d \<or>
       (covered n c v (min_t c ! v + int d + 1) (slot c v d + 1) \<and>
        (\<forall>v'. edge_at E v (min_t c ! v + int d) = Some v' \<longrightarrow>
              covered n c v' (min_t c ! v + int d + 1) (slot c v d)))))"

definition kinv :: "(nat \<times> nat) list \<Rightarrow> nat \<Rightarrow> config \<Rightarrow> (nat \<times> nat) set \<Rightarrow> bool" where
  "kinv E n c X =
     (\<forall>v \<le> n. \<forall>d < nat C. (v, d) \<notin> X \<and> slot c v d \<noteq> INF_LL \<longrightarrow>
        pending c v d \<or> closed E n c v d)"

text \<open>\<open>adv c c'\<close>: from \<open>c\<close> to \<open>c'\<close> arrival times that are set stay, new ones are
  positive, slots and the answer only decrease, and the queue only grows.\<close>

definition adv :: "nat \<Rightarrow> config \<Rightarrow> config \<Rightarrow> bool" where
  "adv n c c' =
     ((\<forall>v \<le> n. min_t c ! v \<noteq> INF_LL \<longrightarrow> min_t c' ! v = min_t c ! v) \<and>
      (\<forall>v \<le> n. min_t c' ! v = min_t c ! v \<or> 1 \<le> min_t c' ! v) \<and>
      (\<forall>v \<le> n. \<forall>d < nat C. slot c' v d \<le> slot c v d) \<and>
      lex_le (ans c') (ans c) \<and> set (pq c) \<subseteq> set (pq c'))"

definition fresh_pending :: "nat \<Rightarrow> config \<Rightarrow> config \<Rightarrow> bool" where
  "fresh_pending n c c' =
     (\<forall>v \<le> n. \<forall>d < nat C. slot c' v d \<noteq> slot c v d \<longrightarrow> pending c' v d)"

lemma lex_le_refl [simp]: "lex_le p p"
  by (simp add: lex_le_def)

lemma lex_le_trans: "lex_le p q \<Longrightarrow> lex_le q r \<Longrightarrow> lex_le p r"
  by (auto simp: lex_le_def)

lemma lex_le_fst: "lex_le p q \<Longrightarrow> fst p \<le> fst q"
  by (auto simp: lex_le_def)

lemma lex_le_antisym: "lex_le p q \<Longrightarrow> lex_le q p \<Longrightarrow> p = q"
  by (auto simp: lex_le_def prod_eq_iff)

lemma adv_refl [simp]: "adv n c c"
  by (simp add: adv_def)

lemma adv_trans:
  assumes "adv n c c1" "adv n c1 c2"
  shows "adv n c c2"
  unfolding adv_def
proof (intro conjI allI impI)
  fix v assume v: "v \<le> n"
  show "min_t c2 ! v = min_t c ! v" if "min_t c ! v \<noteq> INF_LL"
    using assms v that unfolding adv_def by metis
  show "min_t c2 ! v = min_t c ! v \<or> 1 \<le> min_t c2 ! v"
    using assms v unfolding adv_def by metis
  fix d assume "d < nat C"
  then show "slot c2 v d \<le> slot c v d"
    using assms v unfolding adv_def by (meson order_trans)
next
  show "lex_le (ans c2) (ans c)" using assms lex_le_trans unfolding adv_def by blast
  show "set (pq c) \<subseteq> set (pq c2)" using assms unfolding adv_def by blast
qed

lemma covered_adv:
  assumes "adv n c c'" "covered n c v t w"
  shows "covered n c' v t w"
proof -
  from assms(2) have v: "v \<le> n" "min_t c ! v \<noteq> INF_LL" "min_t c ! v \<le> t"
    and sl: "t - min_t c ! v < C \<Longrightarrow> slot c v (nat (t - min_t c ! v)) \<le> w"
    by (simp_all add: covered_def)
  have mt: "min_t c' ! v = min_t c ! v" using assms(1) v by (simp add: adv_def)
  have "slot c' v (nat (t - min_t c ! v)) \<le> w" if "t - min_t c ! v < C"
  proof -
    have "nat (t - min_t c ! v) < nat C" using that v(3) by simp
    then have "slot c' v (nat (t - min_t c ! v)) \<le> slot c v (nat (t - min_t c ! v))"
      using assms(1) v(1) by (simp add: adv_def)
    then show ?thesis using sl[OF that] by linarith
  qed
  then show ?thesis using v mt by (simp add: covered_def)
qed

lemma pending_adv:
  assumes "adv n c c'" "v \<le> n" "min_t c ! v \<noteq> INF_LL" "slot c' v d = slot c v d" "pending c v d"
  shows "pending c' v d"
proof -
  have "min_t c' ! v = min_t c ! v" using assms(1-3) by (simp add: adv_def)
  moreover have "set (pq c) \<subseteq> set (pq c')" using assms(1) by (simp add: adv_def)
  ultimately show ?thesis using assms(4,5) unfolding pending_def by auto
qed

lemma closed_adv:
  assumes a: "adv n c c'" and v: "v \<le> n" "min_t c ! v \<noteq> INF_LL"
    and same: "slot c' v d = slot c v d" and cl: "closed E n c v d"
  shows "closed E n c' v d"
proof -
  have mt: "min_t c' ! v = min_t c ! v" using a v by (simp add: adv_def)
  have le: "lex_le (ans c') (ans c)" using a by (simp add: adv_def)
  let ?t = "min_t c ! v + int d" and ?x = "slot c v d"
  have 1: "lex_le (ans c') (?t, ?x)" if "v = n"
    using cl that lex_le_trans[OF le] by (simp add: closed_def)
  have 2: "fst (ans c') < ?t \<or>
       (covered n c' v (?t + 1) (?x + 1) \<and>
        (\<forall>v'. edge_at E v ?t = Some v' \<longrightarrow> covered n c' v' (?t + 1) ?x))"
  proof (cases "fst (ans c) < ?t")
    case True
    then show ?thesis using lex_le_fst[OF le] by linarith
  next
    case False
    then have "covered n c v (?t + 1) (?x + 1)"
      "\<forall>v'. edge_at E v ?t = Some v' \<longrightarrow> covered n c v' (?t + 1) ?x"
      using cl by (simp_all add: closed_def)
    then show ?thesis using covered_adv[OF a] by blast
  qed
  show ?thesis unfolding closed_def mt same using 1 2 by blast
qed

lemma kinv_adv:
  assumes ok: "tables_ok n c" and a: "adv n c c'" and f: "fresh_pending n c c'"
    and k: "kinv E n c X"
  shows "kinv E n c' X"
  unfolding kinv_def
proof (intro allI impI)
  fix v d assume v: "v \<le> n" and d: "d < nat C"
    and h: "(v, d) \<notin> X \<and> slot c' v d \<noteq> INF_LL"
  show "pending c' v d \<or> closed E n c' v d"
  proof (cases "slot c' v d = slot c v d")
    case False
    then show ?thesis using f v d by (simp add: fresh_pending_def)
  next
    case True
    then have fin: "slot c v d \<noteq> INF_LL" using h by simp
    then have mt: "min_t c ! v \<noteq> INF_LL" using ok v d by (simp add: tables_ok_def)
    from k v d h fin have "pending c v d \<or> closed E n c v d" by (simp add: kinv_def)
    then show ?thesis
      using pending_adv[OF a v mt True] closed_adv[OF a v mt True] by blast
  qed
qed

lemma adv_record_answer: "adv n c (record_answer n' s c)"
proof -
  have "lex_le (ans (record_answer n' s c)) (ans c)"
    by (cases "st_u s = n'") (auto simp: record_answer_def lex_le_def)
  then show ?thesis by (simp add: adv_def)
qed

lemma fresh_pending_record_answer: "fresh_pending n c (record_answer n' s c)"
  by (simp add: fresh_pending_def)

lemma adv_store_push:
  assumes "shape n c" "v \<le> n" "d < nat C" "x \<le> slot c v d"
  shows "adv n c (push s' (store v d x c))"
  unfolding adv_def using assms by (auto simp: slot_store[OF assms(1-3)])

lemma fresh_store_push:
  assumes "shape n c" "v \<le> n" "d < nat C"
    and "s' = \<lparr>total_time = min_t c ! v + int d, wait_time = x, st_u = v\<rparr>"
  shows "fresh_pending n c (push s' (store v d x c))"
  unfolding fresh_pending_def pending_def using assms(4)
  by (auto simp: slot_store[OF assms(1-3)] split: if_splits)

lemma wait_succ_slot:
  assumes "state_ok n c s"
  shows "wait_succ s = \<lparr>total_time = min_t c ! st_u s + int (off c (wait_succ s)),
                        wait_time = wait_time s + 1, st_u = st_u s\<rparr>"
  using assms by (simp add: wait_succ_def off_def state_ok_def)

lemma adv_wait_result:
  assumes "mid n s c"
  shows "adv n c (wait_result s c) \<and> fresh_pending n c (wait_result s c) \<and>
    covered n (wait_result s c) (st_u s) (total_time s + 1) (wait_time s + 1) \<and>
    slot (wait_result s c) (st_u s) (off c s) = slot c (st_u s) (off c s)"
proof -
  from assms have sh: "shape n c" and s: "state_ok n c s" by (simp_all add: mid_def tables_ok_def)
  let ?u = "st_u s" and ?d = "off c (wait_succ s)"
  have u: "?u \<le> n" "min_t c ! ?u \<noteq> INF_LL" "min_t c ! ?u \<le> total_time s"
    using s by (simp_all add: state_ok_def)
  have d: "?d = nat (total_time s + 1 - min_t c ! ?u)" "?d \<noteq> off c s"
    using u by (simp_all add: off_def wait_succ_def)
  show ?thesis
  proof (cases "total_time s + 1 < min_t c ! ?u + C \<and>
              wait_time s + 1 < slot c ?u ?d")
    case True
    then have dC: "?d < nat C" using u by (simp add: d)
    have r: "wait_result s c = push (wait_succ s) (store ?u ?d (wait_time s + 1) c)"
      using True by (simp add: wait_result_def)
    have "adv n c (wait_result s c)"
      unfolding r using True by (intro adv_store_push[OF sh u(1) dC]) simp
    moreover have "fresh_pending n c (wait_result s c)"
      unfolding r by (rule fresh_store_push[OF sh u(1) dC wait_succ_slot[OF s]])
    moreover have "covered n (wait_result s c) ?u (total_time s + 1) (wait_time s + 1)"
      unfolding r covered_def using u by (simp add: d(1)[symmetric] slot_store[OF sh u(1) dC])
    moreover have "slot (wait_result s c) ?u (off c s) = slot c ?u (off c s)"
      unfolding r using d(2) by (simp add: slot_store[OF sh u(1) dC])
    ultimately show ?thesis by blast
  next
    case False
    then have r: "wait_result s c = c" by (auto simp: wait_result_def)
    have "covered n c ?u (total_time s + 1) (wait_time s + 1)"
      unfolding covered_def using u False by (auto simp: d algebra_simps)
    then show ?thesis
      unfolding r by (simp add: fresh_pending_def)
  qed
qed

lemma adv_move_result:
  assumes m: "mid n s c" and v: "1 \<le> v" "v \<le> n" and nC: "int n * C < 2147483648"
  shows "adv n c (move_result s v c) \<and> fresh_pending n c (move_result s v c) \<and>
    covered n (move_result s v c) v (total_time s + 1) (wait_time s) \<and>
    slot (move_result s v c) (st_u s) (off c s) = slot c (st_u s) (off c s)"
proof -
  let ?t = "total_time s + 1" and ?w = "wait_time s" and ?u = "st_u s"
  from m have ok: "tables_ok n c" and s: "state_ok n c s" and e: "early n c (total_time s)"
    by (simp_all add: mid_def)
  have sh: "shape n c" using ok by (simp add: tables_ok_def)
  have tm: "0 \<le> total_time s" "?t \<le> int n * C" using state_ok_time[OF ok s] by simp_all
  have tI: "?t < INF_LL" using tm(2) nC INF_big by linarith
  have w: "?w \<le> total_time s" using s by (simp add: state_ok_def)
  have u: "?u \<le> n" "min_t c ! ?u \<noteq> INF_LL" "min_t c ! ?u \<le> total_time s"
    using s by (simp_all add: state_ok_def)
  have C0: "0 < nat C" by simp
  show ?thesis
  proof (cases "?t < min_t c ! v")
    case True
    have new: "min_t c ! v = INF_LL" using True e v(2) unfolding early_def by force
    have uv: "?u \<noteq> v" using new u(2) by auto
    let ?c1 = "arrive v ?t c"
    have r: "move_result s v c = push (move_succ s v) (store v 0 ?w ?c1)"
      using True by (simp add: move_result_def)
    have sh1: "shape n ?c1" using sh by simp
    have mt1: "min_t ?c1 ! v = ?t" by (simp add: min_t_arrive[OF sh v(2)])
    have sl: "slot c v 0 = INF_LL" using ok v(2) new C0 unfolding tables_ok_def by blast
    have a1: "adv n c ?c1"
      unfolding adv_def using new tm(1) by (auto simp: min_t_arrive[OF sh v(2)])
    have a2: "adv n ?c1 (move_result s v c)"
      unfolding r using sl w tI by (intro adv_store_push[OF sh1 v(2) C0]) simp
    have "fresh_pending n ?c1 (move_result s v c)"
      unfolding r by (rule fresh_store_push[OF sh1 v(2) C0]) (simp add: move_succ_def mt1)
    then have f: "fresh_pending n c (move_result s v c)" by (simp add: fresh_pending_def)
    have cv: "covered n (move_result s v c) v ?t ?w"
      unfolding r covered_def using v(2) tI by (simp add: mt1 slot_store[OF sh1 v(2) C0])
    have same: "slot (move_result s v c) ?u (off c s) = slot c ?u (off c s)"
      unfolding r using uv by (simp add: slot_store[OF sh1 v(2) C0])
    show ?thesis using adv_trans[OF a1 a2] f cv same by blast
  next
    case False
    then have fin: "min_t c ! v \<noteq> INF_LL" "min_t c ! v \<le> ?t" using tI by linarith+
    let ?d = "off c (move_succ s v)"
    have d: "?d = nat (?t - min_t c ! v)" by (simp add: off_def move_succ_def)
    show ?thesis
    proof (cases "?t - min_t c ! v < C \<and> ?w < slot c v ?d")
      case True
      have dC: "?d < nat C" using True fin by (simp add: d)
      have r: "move_result s v c = push (move_succ s v) (store v ?d ?w c)"
        using True False by (simp add: move_result_def)
      have ne: "\<not> (?u = v \<and> off c s = ?d)" using u fin by (auto simp: off_def move_succ_def)
      have "adv n c (move_result s v c)"
        unfolding r using True by (intro adv_store_push[OF sh v(2) dC]) simp
      moreover have "fresh_pending n c (move_result s v c)"
        unfolding r using fin by (intro fresh_store_push[OF sh v(2) dC]) (simp add: move_succ_def off_def)
      moreover have "covered n (move_result s v c) v ?t ?w"
        unfolding r covered_def using v(2) fin by (simp add: d[symmetric] slot_store[OF sh v(2) dC])
      moreover have "slot (move_result s v c) ?u (off c s) = slot c ?u (off c s)"
        unfolding r using ne by (auto simp: slot_store[OF sh v(2) dC])
      ultimately show ?thesis by blast
    next
      case F2: False
      then have r: "move_result s v c = c" using False by (auto simp: move_result_def)
      have "covered n c v ?t ?w"
        unfolding covered_def using v(2) fin F2 by (auto simp: d)
      then show ?thesis unfolding r by (simp add: fresh_pending_def)
    qed
  qed
qed

lemma covered_pop [simp]: "covered n (pop s c) = covered n c"
  by (simp add: covered_def fun_eq_iff)

lemma closed_pop [simp]: "closed E n (pop s c) = closed E n c"
  by (simp add: closed_def fun_eq_iff)

lemma off_wait_result [simp]: "off (wait_result s' c) = off c"
  by (simp add: off_def fun_eq_iff)

lemma lex_le_record_answer:
  "st_u s = n \<Longrightarrow> lex_le (ans (record_answer n s c)) (total_time s, wait_time s)"
  by (auto simp: record_answer_def lex_le_def)

lemma state_ok_off: "state_ok n c s \<Longrightarrow> min_t c ! st_u s + int (off c s) = total_time s"
  by (simp add: state_ok_def off_def)

lemma adv_body_result:
  assumes wf: "well_formed n E" and m: "mid n s c"
  shows "adv n c (body_result E n s c)"
proof -
  let ?c1 = "record_answer n s c"
  let ?c2 = "wait_result s ?c1"
  have m1: "mid n s ?c1" by (rule mid_record_answer[OF m])
  have m2: "mid n s ?c2" by (rule mid_wait_result[OF m1])
  have a1: "adv n c ?c1" by (rule adv_record_answer)
  have a2: "adv n c ?c2" using adv_trans[OF a1] adv_wait_result[OF m1] by blast
  have "adv n c (move_result s v ?c2)" if "next_node E s = Some v" for v
    using adv_trans[OF a2] adv_move_result[OF m2 _ _ well_formed_bounds(2)[OF wf], of v]
      next_node_range[OF wf that] by blast
  then show ?thesis
    using a1 a2 by (auto simp: body_result_def expand_def Let_def split: option.splits)
qed

lemma kinv_pop:
  assumes k: "kinv E n c {}" and X: "X = {(st_u s, off c s)} \<or> wait_time s \<noteq> slot c (st_u s) (off c s)"
    and i: "sinv n c" and sin: "s \<in> set (pq c)"
  shows "kinv E n (pop s c) X"
  unfolding kinv_def
proof (intro allI impI)
  fix v d assume v: "v \<le> n" and d: "d < nat C"
    and h: "(v, d) \<notin> X \<and> slot (pop s c) v d \<noteq> INF_LL"
  have so: "state_ok n c s" using i sin by (simp add: sinv_def)
  let ?p = "\<lparr>total_time = min_t c ! v + int d, wait_time = slot c v d, st_u = v\<rparr>"
  from k v d h have "pending c v d \<or> closed E n c v d" by (simp add: kinv_def)
  moreover have "pending (pop s c) v d" if p: "pending c v d"
  proof -
    have "?p \<noteq> s"
    proof
      assume eq: "?p = s"
      then have vs: "v = st_u s" and ts: "min_t c ! v + int d = total_time s"
        and ws: "slot c v d = wait_time s" by auto
      from ts vs state_ok_off[OF so] have "d = off c s" by simp
      then show False using X h vs ws by auto
    qed
    then show ?thesis using p by (simp add: pending_def)
  qed
  ultimately show "pending (pop s c) v d \<or> closed E n (pop s c) v d" by auto
qed

lemma closed_after_expand:
  assumes wf: "well_formed n E" and m: "mid n s c"
    and nst: "wait_time s = slot c (st_u s) (off c s)"
  shows "closed E n (expand E n s c) (st_u s) (off c s)"
proof -
  let ?u = "st_u s" and ?d = "off c s" and ?t = "total_time s" and ?w = "wait_time s"
  let ?c1 = "record_answer n s c"
  let ?c2 = "wait_result s ?c1"
  let ?c' = "expand E n s c"
  from m have so: "state_ok n c s" and ok: "tables_ok n c" by (simp_all add: mid_def)
  have u: "?u \<le> n" "min_t c ! ?u \<noteq> INF_LL" using so by (simp_all add: state_ok_def)
  have m1: "mid n s ?c1" by (rule mid_record_answer[OF m])
  have m2: "mid n s ?c2" by (rule mid_wait_result[OF m1])
  have w2: "covered n ?c2 ?u (?t + 1) (?w + 1)" "slot ?c2 ?u ?d = slot c ?u ?d"
    using adv_wait_result[OF m1] by simp_all
  have mv: "adv n ?c2 (move_result s v ?c2) \<and> covered n (move_result s v ?c2) v (?t + 1) ?w \<and>
            slot (move_result s v ?c2) ?u ?d = slot ?c2 ?u ?d"
    if "next_node E s = Some v" for v
    using adv_move_result[OF m2 _ _ well_formed_bounds(2)[OF wf], of v] next_node_range[OF wf that]
    by simp
  have "adv n c ?c'" using adv_body_result[OF wf m] nst by (simp add: body_result_def)
  then have mt: "min_t ?c' ! ?u = min_t c ! ?u" using u by (simp add: adv_def)
  have t: "min_t ?c' ! ?u + int ?d = ?t" using mt state_ok_off[OF so] by simp
  have an: "ans ?c' = ans ?c1"
    by (auto simp: expand_def Let_def split: option.splits)
  have sl: "slot ?c' ?u ?d = ?w"
    using w2(2) mv nst by (auto simp: expand_def Let_def split: option.splits)
  have 1: "lex_le (ans ?c') (?t, ?w)" if "?u = n"
    unfolding an by (rule lex_le_record_answer[OF that])
  have 2: "fst (ans ?c') < ?t \<or>
       (covered n ?c' ?u (?t + 1) (?w + 1) \<and>
        (\<forall>v'. edge_at E ?u ?t = Some v' \<longrightarrow> covered n ?c' v' (?t + 1) ?w))"
  proof (cases "?t > fst (ans ?c1)")
    case True
    then show ?thesis using an by simp
  next
    case False
    show ?thesis
    proof (cases "next_node E s")
      case None
      then have "?c' = ?c2" using False by (simp add: expand_def Let_def)
      then show ?thesis using w2(1) None by (simp add: next_node_def)
    next
      case (Some v)
      then have "?c' = move_result s v ?c2" using False by (simp add: expand_def Let_def)
      then show ?thesis using mv[OF Some] covered_adv[OF _ w2(1)] Some
        by (auto simp: next_node_def)
    qed
  qed
  show ?thesis unfolding closed_def t sl using 1 2 by blast
qed

lemma kinv_expand:
  assumes wf: "well_formed n E" and m: "mid n s c" and k: "kinv E n c X"
  shows "kinv E n (expand E n s c) X"
proof -
  let ?c1 = "record_answer n s c"
  let ?c2 = "wait_result s ?c1"
  have m1: "mid n s ?c1" by (rule mid_record_answer[OF m])
  have m2: "mid n s ?c2" by (rule mid_wait_result[OF m1])
  have ok: "tables_ok n c" "tables_ok n ?c1" "tables_ok n ?c2"
    using m m1 m2 by (simp_all add: mid_def)
  have k1: "kinv E n ?c1 X"
    by (rule kinv_adv[OF ok(1) adv_record_answer fresh_pending_record_answer k])
  have k2: "kinv E n ?c2 X"
    using kinv_adv[OF ok(2) _ _ k1] adv_wait_result[OF m1] by blast
  have "kinv E n (move_result s v ?c2) X" if "next_node E s = Some v" for v
    using kinv_adv[OF ok(3) _ _ k2]
      adv_move_result[OF m2 _ _ well_formed_bounds(2)[OF wf], of v] next_node_range[OF wf that]
    by blast
  then show ?thesis using k1 k2
    by (auto simp: expand_def Let_def split: option.splits)
qed

definition complete :: "(nat \<times> nat) list \<Rightarrow> nat \<Rightarrow> config \<Rightarrow> bool" where
  "complete E n c =
     (kinv E n c {} \<and> covered n c 1 0 0 \<and> (\<forall>v \<le> n. v \<noteq> 1 \<longrightarrow> 1 \<le> min_t c ! v))"

lemma complete_step:
  assumes wf: "well_formed n E" and i: "sinv n c" and k: "complete E n c" and top: "is_top s (pq c)"
  shows "complete E n (body_result E n s (pop s c))"
proof -
  let ?c0 = "pop s c"
  let ?c' = "body_result E n s ?c0"
  have sin: "s \<in> set (pq c)" using top by (simp add: is_top_def)
  have m: "mid n s ?c0" by (rule inv_pop_mid[OF i top])
  have a: "adv n ?c0 ?c'" by (rule adv_body_result[OF wf m])
  have 1: "covered n ?c' 1 0 0" using covered_adv[OF a] k by (simp add: complete_def)
  have 2: "1 \<le> min_t ?c' ! v" if "v \<le> n" "v \<noteq> 1" for v
    using a k that unfolding adv_def complete_def by (metis pop_simps(1))
  have so: "state_ok n c s" using i sin by (simp add: sinv_def)
  have 3: "kinv E n ?c' {}"
  proof (cases "wait_time s = slot c (st_u s) (off c s)")
    case False
    then have "?c' = ?c0" using so by (auto simp: body_result_def state_ok_def)
    moreover have "kinv E n ?c0 {}"
      using kinv_pop[OF _ _ i sin, of E "{}"] k False by (simp add: complete_def)
    ultimately show ?thesis by simp
  next
    case True
    then have r: "?c' = expand E n s ?c0" by (simp add: body_result_def)
    let ?X = "{(st_u s, off c s)}"
    have "kinv E n ?c0 ?X" using kinv_pop[OF _ _ i sin, of E ?X] k by (simp add: complete_def)
    then have kx: "kinv E n ?c' ?X" unfolding r by (rule kinv_expand[OF wf m])
    have cl: "closed E n ?c' (st_u s) (off c s)"
      unfolding r using closed_after_expand[OF wf m] True by simp
    show ?thesis
      unfolding kinv_def
    proof (intro allI impI)
      fix v d assume "v \<le> n" "d < nat C" "(v, d) \<notin> {} \<and> slot ?c' v d \<noteq> INF_LL"
      then show "pending ?c' v d \<or> closed E n ?c' v d"
        using kx cl by (cases "(v, d) \<in> ?X") (auto simp: kinv_def)
    qed
  qed
  show ?thesis unfolding complete_def using 1 2 3 by blast
qed

lemma complete_init:
  assumes "1 \<le> n"
  shows "complete E n (init_config n)"
proof -
  have mt: "min_t (init_config n) ! v = (if v = 1 then 0 else INF_LL)" if "v \<le> n" for v
    using init_config_tables(1)[OF assms that] .
  have sl: "slot (init_config n) v d = (if v = 1 \<and> d = 0 then 0 else INF_LL)"
    if "v \<le> n" "d < nat C" for v d
    using init_config_tables(2)[OF assms that] .
  have "pending (init_config n) 1 0"
    using mt[of 1] sl[of 1 0] assms by (simp add: pending_def init_config_def seed_def)
  then have "kinv E n (init_config n) {}"
    unfolding kinv_def using sl by (auto split: if_splits)
  moreover have "covered n (init_config n) 1 0 0"
    using mt[of 1] sl[of 1 0] assms by (simp add: covered_def INF_LL_def)
  moreover have "1 \<le> min_t (init_config n) ! v" if "v \<le> n" "v \<noteq> 1" for v
    using mt[OF that(1)] that(2) by (simp add: INF_LL_def)
  ultimately show ?thesis by (simp add: complete_def)
qed

lemma runs_complete:
  assumes wf: "well_formed n E" and r: "runs n E c"
  shows "complete E n c"
proof -
  have "complete E n c \<and> sinv n c"
    using wf r
  proof (induction rule: runs_induct)
    case init
    show ?case using complete_init[of n E] wf by (simp add: well_formed_def)
  next
    case (step c s)
    show ?case by (rule complete_step[OF wf step(2,3,4)])
  qed
  then show ?thesis by simp
qed

lemma covered_mono: "covered n c v t w \<Longrightarrow> w \<le> w' \<Longrightarrow> covered n c v t w'"
  by (auto simp: covered_def)

lemma walk_snoc:
  "walk E (as @ [a]) p = (case walk E as p of None \<Rightarrow> None | Some q \<Rightarrow> walk_step E a q)"
  by (simp add: walk_append split: option.splits)

lemma lexmin_le: "lexmin E n p \<Longrightarrow> arrives E n (fst q) (snd q) \<Longrightarrow> lex_le p q"
  unfolding lexmin_def by (metis prod.collapse)

lemma final_covers:
  assumes wf: "well_formed n E" and r: "runs n E c" and e: "pq c = []"
    and lm: "lexmin E n (T, W)" and TC: "T \<le> C"
  shows "walk E as (1, 0, 0) = Some (x, t, w) \<Longrightarrow> t \<le> T \<Longrightarrow> covered n c x t w"
proof (induction as arbitrary: x t w rule: rev_induct)
  case Nil
  then show ?case using runs_complete[OF wf r] by (simp add: complete_def)
next
  case (snoc a as)
  from snoc.prems(1) obtain x0 t0 w0 where
    0: "walk E as (1, 0, 0) = Some (x0, t0, w0)" and st: "walk_step E a (x0, t0, w0) = Some (x, t, w)"
    by (auto simp: walk_snoc split: option.splits)
  have t: "t = t0 + 1" using st by (cases a) (auto split: option.splits)
  have cv: "covered n c x0 t0 w0" using snoc.IH[OF 0] snoc.prems(2) t by simp
  have ok: "tables_ok n c" using runs_inv[OF wf r] by (simp add: sinv_def)
  have k: "kinv E n c {}" using runs_complete[OF wf r] by (simp add: complete_def)
  have w0: "0 \<le> w0" "w0 \<le> t0" using walk_length[OF 0] by auto
  have x0: "x0 \<le> n" "min_t c ! x0 \<noteq> INF_LL" "min_t c ! x0 \<le> t0" using cv by (simp_all add: covered_def)
  have m0: "0 \<le> min_t c ! x0" using min_t_bound(1)[OF ok x0(1,2)] .
  have win: "t0 - min_t c ! x0 < C" using snoc.prems(2) t TC m0 by linarith
  let ?d = "nat (t0 - min_t c ! x0)"
  have d: "?d < nat C" "min_t c ! x0 + int ?d = t0" using win x0(3) by simp_all
  have sl: "slot c x0 ?d \<le> w0" using cv win by (simp add: covered_def)
  have "C < INF_LL" by (simp add: C_def INF_LL_def)
  then have fin: "slot c x0 ?d \<noteq> INF_LL" using sl w0 snoc.prems(2) t TC by linarith
  have "\<not> pending c x0 ?d" using e by (simp add: pending_def)
  then have cl: "closed E n c x0 ?d" using k x0(1) d(1) fin unfolding kinv_def by blast
  have "T \<le> fst (ans c)"
  proof (cases "ans c = (INF_LL, INF_LL)")
    case True
    then show ?thesis using TC \<open>C < INF_LL\<close> by simp
  next
    case False
    then have "arrives E n (fst (ans c)) (snd (ans c))"
      using runs_sound[OF wf r] by (simp add: sound_def)
    then have "lex_le (T, W) (ans c)" by (rule lexmin_le[OF lm])
    then show ?thesis using lex_le_fst by fastforce
  qed
  then have "\<not> fst (ans c) < t0" using snoc.prems(2) t by linarith
  then have suc: "covered n c x0 (t0 + 1) (slot c x0 ?d + 1)"
    "\<And>v'. edge_at E x0 t0 = Some v' \<Longrightarrow> covered n c v' (t0 + 1) (slot c x0 ?d)"
    using cl unfolding closed_def d(2) by auto
  show ?case
  proof (cases a)
    case Wait
    then have "x = x0" "w = w0 + 1" using st by auto
    then show ?thesis using covered_mono[OF suc(1), of "w0 + 1"] sl t by simp
  next
    case Move
    then have "edge_at E x0 t0 = Some x" "w = w0" using st by (auto split: option.splits)
    then show ?thesis using covered_mono[OF suc(2), of x w0] sl t by simp
  qed
qed

lemma final_optimal:
  assumes wf: "well_formed n E" and f: "final n E c"
    and lm: "lexmin E n (T, W)" and TC: "T \<le> C"
  shows "ans c = (T, W)"
proof -
  from f have r: "runs n E c" and e: "pq c = []" by (simp_all add: final_def)
  from lm have ar: "arrives E n T W" by (simp add: lexmin_def)
  then obtain as where as: "walk E as (1, 0, 0) = Some (n, T, W)" by (auto simp: arrives_def)
  have cv: "covered n c n T W" by (rule final_covers[OF wf r e lm TC as]) simp
  have ok: "tables_ok n c" using runs_inv[OF wf r] by (simp add: sinv_def)
  have cp: "complete E n c" by (rule runs_complete[OF wf r])
  have W: "0 \<le> W" "W \<le> T" using arrives_bounds[OF ar] by simp_all
  have n: "n \<le> n" "min_t c ! n \<noteq> INF_LL" "min_t c ! n \<le> T" using cv by (simp_all add: covered_def)
  have win: "T - min_t c ! n < C"
  proof (cases "n = 1")
    case True
    have "lex_le (T, W) (0, 0)" using lm arrives_start[of E] True by (simp add: lexmin_def)
    then have "T \<le> 0" using lex_le_fst by fastforce
    moreover have "0 \<le> min_t c ! n" using min_t_bound(1)[OF ok n(1,2)] .
    ultimately show ?thesis using C_pos by linarith
  next
    case False
    then have "1 \<le> min_t c ! n" using cp by (simp add: complete_def)
    then show ?thesis using TC by linarith
  qed
  let ?d = "nat (T - min_t c ! n)"
  have d: "?d < nat C" "min_t c ! n + int ?d = T" using win n(3) by simp_all
  have sl: "slot c n ?d \<le> W" using cv win by (simp add: covered_def)
  have CI: "C < INF_LL" by (simp add: C_def INF_LL_def)
  then have fin: "slot c n ?d \<noteq> INF_LL" using sl W TC by linarith
  have "\<not> pending c n ?d" using e by (simp add: pending_def)
  then have "closed E n c n ?d" using cp d(1) fin unfolding complete_def kinv_def by blast
  then have le1: "lex_le (ans c) (T, slot c n ?d)" unfolding closed_def d(2) by simp
  then have le2: "lex_le (ans c) (T, W)" using sl by (auto simp: lex_le_def)
  then have "fst (ans c) \<le> T" using lex_le_fst by fastforce
  then have "ans c \<noteq> (INF_LL, INF_LL)" using TC CI by auto
  then have "arrives E n (fst (ans c)) (snd (ans c))"
    using runs_sound[OF wf r] by (simp add: sound_def)
  then have "lex_le (T, W) (ans c)" by (rule lexmin_le[OF lm])
  then show ?thesis using lex_le_antisym[OF le2] by simp
qed

lemma solve_optimal:
  assumes wf: "well_formed n E" and lm: "lexmin E n (T, W)" and TC: "T \<le> C"
  shows "solve n E = Some (T, W)"
proof -
  from solve_final[OF wf] obtain c where c: "solve n E = Some (ans c)" "final n E c" by blast
  then show ?thesis using final_optimal[OF wf c(2) lm TC] by simp
qed

lemma lexmin_source: "lexmin E 1 (0, 0)"
  unfolding lexmin_def using arrives_start[of E] arrives_bounds(1,2)
  by (fastforce simp: lex_le_def)

text \<open>
  Claim C7.  When the source is the target (\<open>n = 1\<close>) the printed result is \<open>(0, 0)\<close>,
  whatever edges the well-formed input has, and under any tie-breaking of the queue.
\<close>

theorem source_is_target:
  "well_formed 1 edges \<Longrightarrow>
     solve 1 edges = Some (0, 0) \<and> (\<forall>c. final 1 edges c \<longrightarrow> ans c = (0, 0))"
proof -
  assume wf: "well_formed 1 edges"
  have "(0::int) \<le> C" by simp
  then show ?thesis
    using solve_optimal[OF wf lexmin_source] final_optimal[OF wf _ lexmin_source] by blast
qed

theorem source_is_target_witness:
  "well_formed 1 [(1, 1)] \<and> solve 1 [(1, 1)] = Some (0, 0)"
proof -
  have wf: "well_formed 1 [(1, 1)]" by (simp add: well_formed_def C_def)
  from source_is_target[OF wf] show ?thesis using wf by blast
qed

subsection \<open>The triangle\<close>

definition triangle :: "(nat \<times> nat) list" where
  "triangle = [(1, 2), (2, 3), (1, 3)]"

lemma triangle_incident:
  "incident triangle (Suc 0) = [2, 3]" "incident triangle 2 = [1, 3]" "incident triangle 3 = [2, 1]"
  by (simp_all add: triangle_def incident_def)

lemma triangle_edge_at:
  "edge_at triangle (Suc 0) 0 = Some 2" "edge_at triangle 2 1 = Some 3"
  "edge_at triangle (Suc 0) 0 \<noteq> Some 3"
  by (simp_all add: edge_at_def triangle_incident)

lemma triangle_wf: "well_formed 3 triangle"
  by (simp add: well_formed_def triangle_def C_def)

lemma triangle_lexmin: "lexmin triangle 3 (2, 0)"
proof -
  have "walk triangle [Move, Move] (1, 0, 0) = Some (3, 2, 0)"
    by (simp add: triangle_edge_at)
  then have a: "arrives triangle 3 2 0" unfolding arrives_def by blast
  have "lex_le (2, 0) (T, W)" if ar: "arrives triangle 3 T W" for T W
  proof -
    from ar obtain as where as: "walk triangle as (1, 0, 0) = Some (3, T, W)"
      by (auto simp: arrives_def)
    have T: "T = int (length as)" "0 \<le> W" using walk_length[OF as] by auto
    have "2 \<le> length as"
    proof (rule ccontr)
      assume "\<not> 2 \<le> length as"
      then consider "as = []" | a where "as = [a]"
        by (cases as; cases "tl as") auto
      then show False
      proof cases
        case 1
        then show ?thesis using as by simp
      next
        case 2
        then show ?thesis using as by (cases a) (simp_all add: triangle_edge_at)
      qed
    qed
    then show ?thesis using T by (auto simp: lex_le_def)
  qed
  then show ?thesis using a by (simp add: lexmin_def)
qed

text \<open>
  Claim C8.  The triangle with edges \<open>(1,2), (2,3), (1,3)\<close> in that order: the incident
  list of node 1 is \<open>[2, 3]\<close>, at time 0 it selects position \<open>0 mod 2 = 0\<close>, node 2, and
  the printed result is \<open>(2, 0)\<close>, under any tie-breaking of the queue.
\<close>

theorem triangle_result:
  "solve 3 [(1, 2), (2, 3), (1, 3)] = Some (2, 0) \<and>
   ans ` {c. final 3 [(1, 2), (2, 3), (1, 3)] c} = {(2, 0)} \<and>
   incident [(1, 2), (2, 3), (1, 3)] 1 = [2, 3] \<and>
   edge_at [(1, 2), (2, 3), (1, 3)] 1 0 = Some 2"
proof -
  have C2: "(2::int) \<le> C" by (simp add: C_def)
  have s: "solve 3 triangle = Some (2, 0)"
    by (rule solve_optimal[OF triangle_wf triangle_lexmin C2])
  have f: "ans c = (2, 0)" if "final 3 triangle c" for c
    by (rule final_optimal[OF triangle_wf that triangle_lexmin C2])
  from solve_final[OF triangle_wf] obtain c where "final 3 triangle c" by blast
  then have "ans ` {c. final 3 triangle c} = {(2, 0)}" using f by auto
  then show ?thesis
    using s triangle_incident(1) triangle_edge_at(1) unfolding triangle_def by simp
qed

subsection \<open>A star on 602 nodes, where the window hides the target\<close>

text \<open>
  The input: \<open>n = 602\<close> and the 601 edges \<open>(1, 2), (1, 3), ..., (1, 602)\<close> in this order,
  a connected graph without loops or parallel edges.  Node 1 has degree 601 and its edge
  to node 602 is the last one, taken at the times \<open>t\<close> with \<open>t mod 601 = 600\<close>.  Waiting
  600 times at node 1 and moving arrives at node 602 at time 601.  The search keeps the
  states of node 1 only for the times below \<open>min_t[1] + C = 600\<close>, so no state of node
  602 is ever queued.
\<close>

definition leaves :: "nat list" where
  "leaves = [2..<603]"

definition star :: "(nat \<times> nat) list" where
  "star = map (\<lambda>j. (1, j)) leaves"

lemma leaves_facts:
  "length leaves = 601" "set leaves = {2..602}" "k < 601 \<Longrightarrow> leaves ! k = k + 2"
proof -
  show "length leaves = 601" unfolding leaves_def by (simp only: length_upt)
  show "set leaves = {2..602}" unfolding leaves_def by (simp only: set_upt) auto
  show "k < 601 \<Longrightarrow> leaves ! k = k + 2" unfolding leaves_def by (subst nth_upt) simp_all
qed

lemma star_wf: "well_formed 602 star"
  unfolding well_formed_def star_def list_all_iff
  by (auto simp: leaves_facts C_def)

lemma incident_center: "\<forall>j \<in> set js. j \<noteq> 1 \<Longrightarrow> incident (map (\<lambda>j. (1, j)) js) 1 = js"
  by (induction js) (simp_all add: incident_Cons)

lemma star_incident_center: "incident star (Suc 0) = leaves"
  unfolding star_def using incident_center[of leaves] by (simp add: leaves_facts)

lemma star_incident_leaf: "x \<noteq> 1 \<Longrightarrow> v \<in> set (incident star x) \<Longrightarrow> v = 1"
  unfolding set_incident_eq star_def by auto

lemma star_edge_center: "0 \<le> t \<Longrightarrow> t < 601 \<Longrightarrow> edge_at star (Suc 0) t = Some (nat t + 2)"
proof -
  assume t: "0 \<le> t" "t < 601"
  have "leaves \<noteq> []" using leaves_facts(1) by auto
  moreover have "nat (t mod 601) = nat t" using t by simp
  ultimately show ?thesis
    using t by (simp add: edge_at_def star_incident_center leaves_facts)
qed

lemma star_edge_leaf:
  assumes "x \<noteq> 1" "edge_at star x t = Some v"
  shows "v = 1"
proof -
  let ?inc = "incident star x"
  from assms(2) have ne: "?inc \<noteq> []" and v: "v = ?inc ! nat (t mod int (length ?inc))"
    by (auto simp: edge_at_def split: if_splits)
  have "0 < int (length ?inc)" using ne by simp
  then have "t mod int (length ?inc) < int (length ?inc)" "0 \<le> t mod int (length ?inc)"
    by simp_all
  then have "nat (t mod int (length ?inc)) < length ?inc" by linarith
  then have "v \<in> set ?inc" unfolding v by (rule nth_mem)
  then show ?thesis by (rule star_incident_leaf[OF assms(1)])
qed

lemma walk_waits: "walk E (replicate k Wait) (x, t, w) = Some (x, t + int k, w + int k)"
  by (induction k arbitrary: t w) simp_all

lemma star_walk: "walk star (replicate 600 Wait @ [Move]) (1, 0, 0) = Some (602, 601, 600)"
  by (simp add: walk_append walk_waits star_edge_center)

lemma star_never_queued:
  assumes r: "runs 602 star c"
  shows "(\<forall>s \<in> set (pq c). st_u s \<noteq> 602) \<and> ans c = (INF_LL, INF_LL) \<and> min_t c ! 1 = 0"
proof -
  let ?P = "\<lambda>c. (\<forall>s \<in> set (pq c). st_u s \<noteq> 602) \<and> ans c = (INF_LL, INF_LL) \<and> min_t c ! 1 = 0"
  have "?P c \<and> sinv 602 c"
    using star_wf r
  proof (induction rule: runs_induct)
    case init
    show ?case
      using init_config_tables(1)[of 602 1] by (simp add: init_config_def seed_def)
  next
    case (step c s)
    let ?c' = "body_result star 602 s (pop s c)"
    have sin: "s \<in> set (pq c)" using step(4) by (simp add: is_top_def)
    have so: "state_ok 602 c s" using step(2) sin by (simp add: sinv_def)
    have su: "st_u s \<noteq> 602" using step(3) sin by blast
    have m: "mid 602 s (pop s c)" by (rule inv_pop_mid[OF step(2,4)])
    have a: "adv 602 (pop s c) ?c'" by (rule adv_body_result[OF star_wf m])
    have 1: "min_t ?c' ! 1 = 0"
      using a step(3) unfolding adv_def by (simp add: INF_LL_def)
    have 2: "ans ?c' = (INF_LL, INF_LL)"
      using ans_body_result[of star 602 s "pop s c"] ans_record_answer[of 602 s "pop s c"] su step(3)
      by auto
    have 3: "st_u x \<noteq> 602" if "x \<in> set (pq ?c')" for x
    proof -
      from pq_body_result[OF that] consider
        "x \<in> set (remove1 s (pq c))" | "x = wait_succ s"
        | v where "next_node star s = Some v" "x = move_succ s v"
        by auto
      then show ?thesis
      proof cases
        case 1
        then have "x \<in> set (pq c)" using set_remove1_subset[of s "pq c"] by auto
        then show ?thesis using step(3) by blast
      next
        case 2
        then show ?thesis using su by (simp add: wait_succ_def)
      next
        case 3
        have "v \<noteq> 602"
        proof (cases "st_u s = 1")
          case True
          have "0 \<le> total_time s" "total_time s < 600"
            using so step(3) True by (simp_all add: state_ok_def C_def)
          then show ?thesis
            using 3(1) True star_edge_center[of "total_time s"] by (simp add: next_node_def)
        next
          case False
          have "v = 1" by (rule star_edge_leaf[OF False 3(1)[unfolded next_node_def]])
          then show ?thesis by simp
        qed
        then show ?thesis using 3(2) by (simp add: move_succ_def)
      qed
    qed
    show ?case using 1 2 3 by blast
  qed
  then show ?thesis by simp
qed

lemma star_solve: "solve 602 star = Some (INF_LL, INF_LL)"
proof -
  from solve_final[OF star_wf] obtain c where c: "solve 602 star = Some (ans c)" "final 602 star c"
    by blast
  then show ?thesis using star_never_queued[of c] by (simp add: final_def)
qed

lemma star_not_lexmin: "\<not> lexmin star 602 (INF_LL, INF_LL)"
proof
  assume "lexmin star 602 (INF_LL, INF_LL)"
  moreover have "arrives star 602 601 600" unfolding arrives_def using star_walk by blast
  ultimately have "lex_le (INF_LL, INF_LL) (601, 600)" by (simp add: lexmin_def)
  then show False by (simp add: lex_le_def INF_LL_def)
qed

text \<open>
  Claim C1 fails as stated.  On the star above, a well-formed input on which node 602
  is reachable (waiting 600 times at node 1 and moving arrives at time 601 with wait
  600), the program prints the sentinel \<open>(10^18, 10^18)\<close>, which is not the
  lexicographically minimal pair over the walks to node 602.
\<close>

theorem window_misses_target:
  "well_formed 602 star \<and>
   walk star (replicate 600 Wait @ [Move]) (1, 0, 0) = Some (602, 601, 600) \<and>
   arrives star 602 601 600 \<and>
   solve 602 star = Some (INF_LL, INF_LL) \<and>
   \<not> lexmin star 602 (INF_LL, INF_LL)"
proof -
  have "arrives star 602 601 600" unfolding arrives_def using star_walk by blast
  then show ?thesis using star_wf star_walk star_solve star_not_lexmin by blast
qed

subsection \<open>Inside the window the search is optimal\<close>

text \<open>
  The window in the specification's terms.  A state of a walk is inside the window when
  its time is less than \<open>C\<close> above every time at which any walk is at its node, that is,
  less than \<open>C\<close> above the earliest arrival at the node.  A walk stays inside the window
  when each of its states is, the first and the last included.
\<close>

definition in_window :: "(nat \<times> nat) list \<Rightarrow> nat \<times> int \<times> int \<Rightarrow> bool" where
  "in_window E p = (\<forall>t0 w0. arrives E (fst p) t0 w0 \<longrightarrow> fst (snd p) < t0 + C)"

fun stays_inside :: "(nat \<times> nat) list \<Rightarrow> action list \<Rightarrow> nat \<times> int \<times> int \<Rightarrow> bool" where
  "stays_inside E [] p = in_window E p"
| "stays_inside E (a # as) p =
     (in_window E p \<and>
      (case walk_step E a p of None \<Rightarrow> False | Some q \<Rightarrow> stays_inside E as q))"

lemma nth_update_cases: "xs[v := y] ! x = xs ! x \<or> (x = v \<and> xs[v := y] ! x = y)"
  by (cases "v < length xs"; cases "x = v"; simp add: list_update_beyond)

lemma min_t_move_result:
  "min_t (move_result s v c) ! x = min_t c ! x \<or>
   (x = v \<and> min_t (move_result s v c) ! x = total_time s + 1)"
  using nth_update_cases[of "min_t c" v "total_time s + 1" x]
  by (auto simp: move_result_def arrive_def)

lemma min_t_body_result:
  "min_t (body_result E n s c) ! x = min_t c ! x \<or>
   (next_node E s = Some x \<and> min_t (body_result E n s c) ! x = total_time s + 1)"
proof (cases "next_node E s")
  case None
  then show ?thesis by (simp add: body_result_def expand_def Let_def)
next
  case (Some v)
  then show ?thesis
    using min_t_move_result[of s v "wait_result s (record_answer n s c)" x]
    by (auto simp: body_result_def expand_def Let_def)
qed

lemma min_t_arrives:
  assumes wf: "well_formed n E" and r: "runs n E c"
  shows "\<forall>v \<le> n. min_t c ! v \<noteq> INF_LL \<longrightarrow> (\<exists>w. arrives E v (min_t c ! v) w)"
proof -
  let ?P = "\<lambda>c. \<forall>v \<le> n. min_t c ! v \<noteq> INF_LL \<longrightarrow> (\<exists>w. arrives E v (min_t c ! v) w)"
  have "?P c \<and> sinv n c"
    using wf r
  proof (induction rule: runs_induct)
    case init
    have n: "1 \<le> n" using wf by (simp add: well_formed_def)
    show ?case
    proof (intro allI impI)
      fix v assume v: "v \<le> n" and f: "min_t (init_config n) ! v \<noteq> INF_LL"
      then have "v = 1" "min_t (init_config n) ! v = 0"
        using init_config_tables(1)[OF n v] by (auto split: if_splits)
      then show "\<exists>w. arrives E v (min_t (init_config n) ! v) w"
        using arrives_start[of E] by auto
    qed
  next
    case (step c s)
    let ?c' = "body_result E n s (pop s c)"
    have sin: "s \<in> set (pq c)" using step(4) by (simp add: is_top_def)
    have as: "arrives E (st_u s) (total_time s) (wait_time s)"
      using runs_sound[OF wf step(1)] sin by (simp add: sound_def)
    show ?case
    proof (intro allI impI)
      fix v assume v: "v \<le> n" and f: "min_t ?c' ! v \<noteq> INF_LL"
      from min_t_body_result[of E n s "pop s c" v] consider
        "min_t ?c' ! v = min_t c ! v"
        | "next_node E s = Some v" "min_t ?c' ! v = total_time s + 1"
        by auto
      then show "\<exists>w. arrives E v (min_t ?c' ! v) w"
      proof cases
        case 1
        then show ?thesis using step(3) v f by simp
      next
        case 2
        then show ?thesis using arrives_move[OF as, of v] by (auto simp: next_node_def)
      qed
    qed
  qed
  then show ?thesis by simp
qed

lemma stays_inside_last:
  "walk E as p = Some q \<Longrightarrow> stays_inside E as p \<Longrightarrow> in_window E q"
proof (induction as arbitrary: p)
  case Nil
  then show ?case by simp
next
  case (Cons a as)
  then show ?case by (auto split: option.splits)
qed

lemma covers_inside:
  assumes wf: "well_formed n E" and r: "runs n E c" and e: "pq c = []"
    and lm: "lexmin E n (T, W)"
  shows "walk E as (x, t, w) = Some (x', t', w') \<Longrightarrow> stays_inside E as (x, t, w) \<Longrightarrow>
         t' \<le> T \<Longrightarrow> w \<le> t \<Longrightarrow> covered n c x t w \<Longrightarrow> covered n c x' t' w'"
proof (induction as arbitrary: x t w)
  case Nil
  then show ?case by simp
next
  case (Cons a as)
  from Cons.prems(1) obtain x1 t1 w1 where
    st: "walk_step E a (x, t, w) = Some (x1, t1, w1)" and
    rest: "walk E as (x1, t1, w1) = Some (x', t', w')"
    by (auto split: option.splits)
  from Cons.prems(2) st have win0: "in_window E (x, t, w)" and ins: "stays_inside E as (x1, t1, w1)"
    by simp_all
  have t1: "t1 = t + 1" "w1 \<le> t1" using st Cons.prems(4) by (cases a; auto split: option.splits)+
  have "t1 \<le> t'" using walk_length[OF rest] by simp
  then have tT: "t < T" using t1 Cons.prems(3) by simp
  have cv: "covered n c x t w" by fact
  have ok: "tables_ok n c" using runs_inv[OF wf r] by (simp add: sinv_def)
  have k: "kinv E n c {}" using runs_complete[OF wf r] by (simp add: complete_def)
  have x: "x \<le> n" "min_t c ! x \<noteq> INF_LL" "min_t c ! x \<le> t" using cv by (simp_all add: covered_def)
  from min_t_arrives[OF wf r] x obtain w0 where "arrives E x (min_t c ! x) w0" by blast
  then have win: "t - min_t c ! x < C" using win0 by (auto simp: in_window_def)
  let ?d = "nat (t - min_t c ! x)"
  have d: "?d < nat C" "min_t c ! x + int ?d = t" using win x(3) by simp_all
  have sl: "slot c x ?d \<le> w" using cv win by (simp add: covered_def)
  have "t < int n * C" using min_t_bound(3)[OF ok x(1,2)] win by linarith
  then have "t < INF_LL" using well_formed_bounds(2)[OF wf] INF_big by linarith
  then have fin: "slot c x ?d \<noteq> INF_LL" using sl Cons.prems(4) by linarith
  have "\<not> pending c x ?d" using e by (simp add: pending_def)
  then have cl: "closed E n c x ?d" using k x(1) d(1) fin unfolding kinv_def by blast
  have "\<not> fst (ans c) < t"
  proof (cases "ans c = (INF_LL, INF_LL)")
    case True
    then show ?thesis using \<open>t < INF_LL\<close> by simp
  next
    case False
    then have "arrives E n (fst (ans c)) (snd (ans c))"
      using runs_sound[OF wf r] by (simp add: sound_def)
    then have "lex_le (T, W) (ans c)" by (rule lexmin_le[OF lm])
    then have "T \<le> fst (ans c)" using lex_le_fst by fastforce
    then show ?thesis using tT by linarith
  qed
  then have suc: "covered n c x (t + 1) (slot c x ?d + 1)"
    "\<And>v'. edge_at E x t = Some v' \<Longrightarrow> covered n c v' (t + 1) (slot c x ?d)"
    using cl unfolding closed_def d(2) by auto
  have "covered n c x1 t1 w1"
  proof (cases a)
    case Wait
    then have "x1 = x" "w1 = w + 1" using st by auto
    then show ?thesis using covered_mono[OF suc(1), of "w + 1"] sl t1 by simp
  next
    case Move
    then have "edge_at E x t = Some x1" "w1 = w" using st by (auto split: option.splits)
    then show ?thesis using covered_mono[OF suc(2), of x1 w] sl t1 by simp
  qed
  then show ?case using Cons.IH[OF rest ins Cons.prems(3) t1(2)] by simp
qed

lemma final_optimal_inside:
  assumes wf: "well_formed n E" and f: "final n E c" and lm: "lexmin E n (T, W)"
    and as: "walk E as (1, 0, 0) = Some (n, T, W)" and ins: "stays_inside E as (1, 0, 0)"
  shows "ans c = (T, W)"
proof -
  from f have r: "runs n E c" and e: "pq c = []" by (simp_all add: final_def)
  have cp: "complete E n c" by (rule runs_complete[OF wf r])
  then have c0: "covered n c 1 0 0" by (simp add: complete_def)
  have cv: "covered n c n T W"
    by (rule covers_inside[OF wf r e lm as ins _ _ c0]) simp_all
  have ok: "tables_ok n c" using runs_inv[OF wf r] by (simp add: sinv_def)
  have ar: "arrives E n T W" using as unfolding arrives_def by blast
  have W: "0 \<le> W" "W \<le> T" using arrives_bounds[OF ar] by simp_all
  have n: "n \<le> n" "min_t c ! n \<noteq> INF_LL" "min_t c ! n \<le> T" using cv by (simp_all add: covered_def)
  from min_t_arrives[OF wf r] n obtain w0 where "arrives E n (min_t c ! n) w0" by blast
  then have win: "T - min_t c ! n < C"
    using stays_inside_last[OF as ins] by (auto simp: in_window_def)
  let ?d = "nat (T - min_t c ! n)"
  have d: "?d < nat C" "min_t c ! n + int ?d = T" using win n(3) by simp_all
  have sl: "slot c n ?d \<le> W" using cv win by (simp add: covered_def)
  have "T < int n * C" using min_t_bound(3)[OF ok n(1,2)] win by linarith
  then have TI: "T < INF_LL" using well_formed_bounds(2)[OF wf] INF_big by linarith
  then have fin: "slot c n ?d \<noteq> INF_LL" using sl W by linarith
  have "\<not> pending c n ?d" using e by (simp add: pending_def)
  then have "closed E n c n ?d" using cp d(1) fin unfolding complete_def kinv_def by blast
  then have le1: "lex_le (ans c) (T, slot c n ?d)" unfolding closed_def d(2) by simp
  then have le2: "lex_le (ans c) (T, W)" using sl by (auto simp: lex_le_def)
  then have "fst (ans c) \<le> T" using lex_le_fst by fastforce
  then have "ans c \<noteq> (INF_LL, INF_LL)" using TI by auto
  then have "arrives E n (fst (ans c)) (snd (ans c))"
    using runs_sound[OF wf r] by (simp add: sound_def)
  then have "lex_le (T, W) (ans c)" by (rule lexmin_le[OF lm])
  then show ?thesis using lex_le_antisym[OF le2] by simp
qed

lemma solve_optimal_inside:
  assumes wf: "well_formed n E" and lm: "lexmin E n (T, W)"
    and as: "walk E as (1, 0, 0) = Some (n, T, W)" and ins: "stays_inside E as (1, 0, 0)"
  shows "solve n E = Some (T, W)"
proof -
  from solve_final[OF wf] obtain c where c: "solve n E = Some (ans c)" "final n E c" by blast
  then show ?thesis using final_optimal_inside[OF wf c(2) lm as ins] by simp
qed

text \<open>A walk to the target that arrives no later than \<open>C\<close> stays inside the window.\<close>

lemma short_walk_inside:
  assumes lm: "lexmin E n (T, W)" and TC: "T \<le> C"
  shows "walk E as (x, t, w) = Some (n, T, W) \<Longrightarrow> stays_inside E as (x, t, w)"
proof (induction as arbitrary: x t w)
  case Nil
  then have q: "x = n" "t = T" by simp_all
  have "T < t0 + C" if a: "arrives E n t0 w0" for t0 w0
  proof (cases "t0 = 0")
    case True
    then have "n = 1" using arrives_bounds(3)[OF a] by simp
    then have "lex_le (T, W) (0, 0)" using lexmin_le[OF lm, of "(0, 0)"] arrives_start[of E] by simp
    then have "T \<le> 0" using lex_le_fst by fastforce
    then show ?thesis using True C_pos by linarith
  next
    case False
    then have "1 \<le> t0" using arrives_bounds(1,2)[OF a] by linarith
    then show ?thesis using TC by linarith
  qed
  then show ?case using q by (simp add: in_window_def)
next
  case (Cons a as)
  from Cons.prems obtain x1 t1 w1 where
    st: "walk_step E a (x, t, w) = Some (x1, t1, w1)" and
    rest: "walk E as (x1, t1, w1) = Some (n, T, W)"
    by (auto split: option.splits)
  have "t1 = t + 1" using st by (cases a) (auto split: option.splits)
  then have "t < T" using walk_length[OF rest] by simp
  then have "t < t0 + C" if "arrives E x t0 w0" for t0 w0
    using arrives_bounds(1,2)[OF that] TC by linarith
  then have "in_window E (x, t, w)" by (simp add: in_window_def)
  then show ?case using st Cons.IH[OF rest] by simp
qed

subsection \<open>A hub where the optimum arrives after time \<open>C\<close>, inside the window\<close>

text \<open>
  The input: \<open>n = 3\<close>, the edge \<open>(1, 2)\<close> 600 times and then the edge \<open>(2, 3)\<close>.  Node 2
  has degree 601 and its edge to node 3 is the last, taken at the times \<open>t\<close> with
  \<open>t mod 601 = 600\<close>.  Node 2 is first reached at time 1, so time 600 is inside its
  window.  The optimum is \<open>(601, 1)\<close>: without a wait the agent is at node 2 at odd
  times only.
\<close>

definition hub :: "(nat \<times> nat) list" where
  "hub = replicate 600 (1, 2) @ [(2, 3)]"

definition hub_walk :: "action list" where
  "hub_walk = [Wait, Move] @ concat (replicate 299 [Move, Move]) @ [Move]"

lemma incident_append: "incident (es @ fs) x = incident es x @ incident fs x"
  by (simp add: incident_def)

lemma incident_replicate:
  "incident (replicate k (a, b)) x =
     concat (replicate k ((if a = x then [b] else []) @ (if b = x then [a] else [])))"
  by (induction k) (simp_all add: incident_Cons)

lemma concat_replicate_single: "concat (replicate k [y]) = replicate k y"
  by (induction k) simp_all

lemma concat_replicate_Nil: "concat (replicate k []) = []"
  by (induction k) simp_all

lemma hub_incident:
  "incident hub (Suc 0) = replicate 600 2" "incident hub 2 = replicate 600 1 @ [3]"
  "incident hub 3 = [2]"
  unfolding hub_def incident_append incident_replicate
  by (simp_all add: incident_def concat_replicate_single concat_replicate_Nil)

lemma hub_wf: "well_formed 3 hub"
  unfolding well_formed_def hub_def list_all_iff by (auto simp: C_def)

lemma hub_edge_at:
  assumes "0 \<le> t"
  shows "edge_at hub (Suc 0) t = Some 2"
    and "edge_at hub 2 t = (if t mod 601 = 600 then Some 3 else Some 1)"
    and "edge_at hub 3 t = Some 2"
proof -
  have "nat (t mod 600) < 600" using assms by simp
  then show "edge_at hub (Suc 0) t = Some 2"
    by (simp add: edge_at_def hub_incident)
  have m: "0 \<le> t mod 601" "t mod 601 < 601" by simp_all
  show "edge_at hub 2 t = (if t mod 601 = 600 then Some 3 else Some 1)"
  proof (cases "t mod 601 = 600")
    case True
    then show ?thesis by (simp add: edge_at_def hub_incident nth_append)
  next
    case False
    then have "nat (t mod 601) < 600" using m by linarith
    then show ?thesis using False by (simp add: edge_at_def hub_incident nth_append)
  qed
  show "edge_at hub 3 t = Some 2" by (simp add: edge_at_def hub_incident)
qed

lemma hub_walk_inv:
  "walk hub as (1, 0, 0) = Some (x, t, w) \<Longrightarrow>
     0 \<le> w \<and> 0 \<le> t \<and> (x = 1 \<or> x = 2 \<or> x = 3) \<and> (x = 2 \<longleftrightarrow> odd (t - w)) \<and>
     (x = 3 \<longrightarrow> 601 \<le> t \<and> (t = 601 \<longrightarrow> 1 \<le> w))"
proof (induction as arbitrary: x t w rule: rev_induct)
  case Nil
  then show ?case by simp
next
  case (snoc a as)
  from snoc.prems obtain x0 t0 w0 where
    0: "walk hub as (1, 0, 0) = Some (x0, t0, w0)" and st: "walk_step hub a (x0, t0, w0) = Some (x, t, w)"
    by (auto simp: walk_snoc split: option.splits)
  note ih = snoc.IH[OF 0]
  then have t0: "0 \<le> t0" by simp
  show ?case
  proof (cases a)
    case Wait
    then have "x = x0" "t = t0 + 1" "w = w0 + 1" using st by auto
    then show ?thesis using ih by auto
  next
    case Move
    then have e: "edge_at hub x0 t0 = Some x" and tw: "t = t0 + 1" "w = w0"
      using st by (auto split: option.splits)
    from ih consider "x0 = 1" | "x0 = 2" | "x0 = 3" by blast
    then show ?thesis
    proof cases
      case 1
      then have "x = 2" using e hub_edge_at(1)[OF t0] by simp
      then show ?thesis using ih 1 tw by auto
    next
      case 2
      show ?thesis
      proof (cases "t0 mod 601 = 600")
        case True
        then have x: "x = 3" using e 2 hub_edge_at(2)[OF t0] by simp
        have "t0 mod 601 \<le> t0" using t0 by (rule zmod_le_nonneg_dividend)
        then have "600 \<le> t0" using True by linarith
        moreover have "odd (t0 - w0)" using ih 2 by simp
        then have "t0 = 600 \<Longrightarrow> 1 \<le> w0" using ih by (cases "w0 = 0") auto
        ultimately show ?thesis using ih 2 x tw by auto
      next
        case False
        then have "x = 1" using e 2 hub_edge_at(2)[OF t0] by simp
        then show ?thesis using ih 2 tw by auto
      qed
    next
      case 3
      then have "x = 2" using e hub_edge_at(3)[OF t0] by simp
      then show ?thesis using ih 3 tw by auto
    qed
  qed
qed

lemma hub_bounce:
  "0 \<le> t \<Longrightarrow> t + 2 * int k \<le> 600 \<Longrightarrow>
     walk hub (concat (replicate k [Move, Move]) @ rest) (2, t, w) = walk hub rest (2, t + 2 * int k, w)"
proof (induction k arbitrary: t)
  case 0
  then show ?case by simp
next
  case (Suc k)
  then have t: "0 \<le> t" "t < 600" "0 \<le> t + 1" by simp_all
  then have "t mod 601 = t" by simp
  then have "edge_at hub 2 t = Some 1" using hub_edge_at(2)[OF t(1)] t(2) by simp
  moreover have "edge_at hub (Suc 0) (t + 1) = Some 2" by (rule hub_edge_at(1)[OF t(3)])
  ultimately show ?case using Suc.IH[of "t + 2"] Suc.prems by (simp add: algebra_simps)
qed

lemma hub_walk_result: "walk hub hub_walk (1, 0, 0) = Some (3, 601, 1)"
proof -
  have "edge_at hub 2 600 = Some 3" using hub_edge_at(2)[of 600] by simp
  moreover have "edge_at hub (Suc 0) 1 = Some 2" using hub_edge_at(1)[of 1] by simp
  ultimately show ?thesis
    unfolding hub_walk_def using hub_bounce[of 2 299 "[Move]" 1] by simp
qed

lemma hub_lexmin: "lexmin hub 3 (601, 1)"
proof -
  have a: "arrives hub 3 601 1" unfolding arrives_def using hub_walk_result by blast
  have "lex_le (601, 1) (T, W)" if "arrives hub 3 T W" for T W
  proof -
    from that obtain as where "walk hub as (1, 0, 0) = Some (3, T, W)" by (auto simp: arrives_def)
    from hub_walk_inv[OF this] show ?thesis by (auto simp: lex_le_def)
  qed
  then show ?thesis using a by (simp add: lexmin_def)
qed

lemma hub_window:
  "t < 600 \<Longrightarrow> in_window hub (Suc 0, t, w)" "t \<le> 600 \<Longrightarrow> in_window hub (2, t, w)"
  "t \<le> 1200 \<Longrightarrow> in_window hub (3, t, w)"
proof -
  have 1: "0 \<le> t0" if "arrives hub x t0 w0" for x t0 w0
    using arrives_bounds(1,2)[OF that] by linarith
  have 2: "1 \<le> t0" if "arrives hub 2 t0 w0" for t0 w0
    using arrives_bounds(3)[OF that] 1[OF that] by (cases "t0 = 0") auto
  have 3: "601 \<le> t0" if "arrives hub 3 t0 w0" for t0 w0
  proof -
    from that obtain as where "walk hub as (1, 0, 0) = Some (3, t0, w0)" by (auto simp: arrives_def)
    from hub_walk_inv[OF this] show ?thesis by simp
  qed
  show "t < 600 \<Longrightarrow> in_window hub (Suc 0, t, w)"
    unfolding in_window_def using 1 by (fastforce simp: C_def)
  show "t \<le> 600 \<Longrightarrow> in_window hub (2, t, w)"
    unfolding in_window_def using 2 by (fastforce simp: C_def)
  show "t \<le> 1200 \<Longrightarrow> in_window hub (3, t, w)"
    unfolding in_window_def using 3 by (fastforce simp: C_def)
qed

lemma hub_bounce_inside:
  "0 \<le> t \<Longrightarrow> t + 2 * int k \<le> 600 \<Longrightarrow>
     stays_inside hub (concat (replicate k [Move, Move]) @ rest) (2, t, w)
       = stays_inside hub rest (2, t + 2 * int k, w)"
proof (induction k arbitrary: t)
  case 0
  then show ?case by simp
next
  case (Suc k)
  then have t: "0 \<le> t" "t < 600" "0 \<le> t + 1" by simp_all
  then have "t mod 601 = t" by simp
  then have "edge_at hub 2 t = Some 1" using hub_edge_at(2)[OF t(1)] t(2) by simp
  moreover have "edge_at hub (Suc 0) (t + 1) = Some 2" by (rule hub_edge_at(1)[OF t(3)])
  moreover have "in_window hub (2, t, w)" "in_window hub (Suc 0, t + 1, w)"
    using hub_window(1)[of "t + 1" w] hub_window(2)[of t w] Suc.prems by simp_all
  ultimately show ?case using Suc.IH[of "t + 2"] Suc.prems by (simp add: algebra_simps)
qed

lemma hub_walk_inside: "stays_inside hub hub_walk (1, 0, 0)"
proof -
  have "edge_at hub 2 600 = Some 3" using hub_edge_at(2)[of 600] by simp
  moreover have "edge_at hub (Suc 0) 1 = Some 2" using hub_edge_at(1)[of 1] by simp
  moreover have "in_window hub (Suc 0, 0, 0)" "in_window hub (Suc 0, 1, 1)"
    "in_window hub (2, 600, 1)" "in_window hub (3, 601, 1)"
    using hub_window(1)[of 0 0] hub_window(1)[of 1 1] hub_window(2)[of 600 1] hub_window(3)[of 601 1]
    by simp_all
  ultimately show ?thesis
    unfolding hub_walk_def using hub_bounce_inside[of 2 299 "[Move]" 1] by simp
qed

text \<open>
  Claim C1, as amended.  For every well-formed input on which some walk from node 1 to
  node \<open>n\<close> attains the lexicographically minimal pair (arrival time, total wait) and
  stays inside the window (each of its states has a time less than \<open>C = 600\<close> above the
  earliest arrival at its node), the program prints that pair, under any tie-breaking
  of the queue.  The arrival time itself is not bounded: on the hub above it is 601.
  By \<open>short_walk_inside\<close> the hypothesis holds for every minimal walk when the minimal
  arrival time is at most \<open>C\<close>.
\<close>

theorem optimal_within_window:
  "well_formed n edges \<Longrightarrow> lexmin edges n (T, W) \<Longrightarrow>
   walk edges as (1, 0, 0) = Some (n, T, W) \<Longrightarrow> stays_inside edges as (1, 0, 0) \<Longrightarrow>
     solve n edges = Some (T, W) \<and> (\<forall>c. final n edges c \<longrightarrow> ans c = (T, W))"
  using solve_optimal_inside final_optimal_inside by blast

theorem optimal_within_window_witness:
  "well_formed 3 hub \<and> lexmin hub 3 (601, 1) \<and>
   walk hub hub_walk (1, 0, 0) = Some (3, 601, 1) \<and> stays_inside hub hub_walk (1, 0, 0) \<and>
   C < 601 \<and> solve 3 hub = Some (601, 1)"
proof -
  have "C < 601" by (simp add: C_def)
  with optimal_within_window[OF hub_wf hub_lexmin hub_walk_result hub_walk_inside]
  show ?thesis using hub_wf hub_lexmin hub_walk_result hub_walk_inside by blast
qed

end
